theory Spec2Isabelle
  imports Main "HOL-Library.Char_ord" "HOL-Library.Sublist" "HOL-Library.Word"
begin

section \<open>Strings\<close>

text \<open>
  \<^verbatim>\<open>std::string::find(str)\<close>: the position of the first occurrence of \<open>pat\<close>,
  \<open>None\<close> for \<^verbatim>\<open>npos\<close>.  \<^verbatim>\<open>substr(0, n)\<close> is \<open>take n\<close> and \<^verbatim>\<open>substr(n)\<close> is
  \<open>drop n\<close>.
\<close>

fun str_find :: "string \<Rightarrow> string \<Rightarrow> nat option" where
  "str_find pat [] = (if pat = [] then Some 0 else None)"
| "str_find pat (c # cs) =
     (if prefix pat (c # cs) then Some 0 else map_option Suc (str_find pat cs))"

text \<open>\<^verbatim>\<open>toupper\<close> and \<^verbatim>\<open>tolower\<close> of the C locale: only the 26 ASCII letters change.\<close>

definition toupper :: "char \<Rightarrow> char" where
  "toupper c =
     (case map_of (zip ''abcdefghijklmnopqrstuvwxyz'' ''ABCDEFGHIJKLMNOPQRSTUVWXYZ'') c of
        Some u \<Rightarrow> u
      | None \<Rightarrow> c)"

definition tolower :: "char \<Rightarrow> char" where
  "tolower c =
     (case map_of (zip ''ABCDEFGHIJKLMNOPQRSTUVWXYZ'' ''abcdefghijklmnopqrstuvwxyz'') c of
        Some l \<Rightarrow> l
      | None \<Rightarrow> c)"

text \<open>\<^verbatim>\<open>std::to_string(int)\<close>: the decimal digits, with a minus sign below zero.\<close>

fun digits :: "nat \<Rightarrow> string" where
  "digits n =
     (if n < 10 then [''0123456789'' ! n]
      else digits (n div 10) @ [''0123456789'' ! (n mod 10)])"

declare digits.simps [simp del]

definition to_string :: "int \<Rightarrow> string" where
  "to_string i = (if i < 0 then CHR ''-'' # digits (nat (- i)) else digits (nat i))"


section \<open>The message entity (message.cc)\<close>

text \<open>
  A MIME part as \<^verbatim>\<open>CMessagePart\<close> keeps it: content type, file name (empty when the part
  is no attachment), content bytes and children.
\<close>

datatype CMessagePart =
  CMessagePart (p_type: string) (p_filename: string) (p_content: string)
    (p_children: "CMessagePart list")

text \<open>
  The members of \<^verbatim>\<open>CMessage\<close>.  \<open>m_headers\<close> is the \<^verbatim>\<open>unordered_map\<close> of the header
  cache, kept as an association list with one entry per key.  \<open>m_ctime\<close> is the time
  of the message that the threader asks for.
\<close>

record CMessage =
  m_path :: string
  m_imap :: bool
  m_imap_flags :: string
  m_imap_id :: int
  m_time :: int
  m_headers :: "(string \<times> string) list"
  m_parts :: "CMessagePart list"
  m_ctime :: int

text \<open>
  Modelled from the spec: the parent folder \<^verbatim>\<open>CMaildir\<close>, whose source (maildir.cc) is
  not at hand.  message.cc uses its \<^verbatim>\<open>path()\<close>, \<^verbatim>\<open>unread_messages()\<close>,
  \<^verbatim>\<open>set_unread(n)\<close> and \<^verbatim>\<open>bump_mtime()\<close>; the specification describes an identity,
  an unread counter maintained by the flag transitions and a modification time.  The
  counter is read into and written from a C \<^verbatim>\<open>int\<close>, hence 32 bits.
\<close>

record CMaildir =
  md_path :: string
  md_unread :: "32 word"
  md_mtime :: int

text \<open>
  The system calls on file names that the message code makes: \<^verbatim>\<open>rename(src, dst)\<close>,
  opening a file for reading and opening (creating) a file for writing.
\<close>

datatype syscall = Rename string string | Open_read string | Open_write string

text \<open>
  What the message code acts on outside the message object: the files that exist and
  their bytes, the lines sent to the IMAP proxy and what the proxy answers to a line,
  the messages handed to the \<^verbatim>\<open>on_error\<close> hook, and the folder that \<^verbatim>\<open>m_parent\<close>
  points to.  \<open>denied\<close> is the verdict of the operating system on a call beyond the
  existence of the file it names: \<open>None\<close> when the call goes through, otherwise the
  text of \<^verbatim>\<open>strerror(errno)\<close> (the directory of the destination is missing, a
  permission is lacking, the names lie on two file systems).
\<close>

record world =
  files :: "string set"
  content :: "string \<Rightarrow> string"
  denied :: "syscall \<Rightarrow> string option"
  answer :: "string \<Rightarrow> string"
  sent :: "string list"
  errors :: "string list"
  parent :: CMaildir

text \<open>The constructor \<^verbatim>\<open>CMessage(name, is_local)\<close>.\<close>

definition new_CMessage :: "string \<Rightarrow> bool \<Rightarrow> CMessage" where
  "new_CMessage name is_local =
     \<lparr>m_path = name, m_imap = \<not> is_local, m_imap_flags = [], m_imap_id = 0, m_time = 0,
      m_headers = [], m_parts = [], m_ctime = 0\<rparr>"

text \<open>
  \<^verbatim>\<open>rename(2)\<close> as \<^verbatim>\<open>CFile::move\<close> and \<^verbatim>\<open>mark_read\<close> call it: it succeeds when the
  source file exists and the system does not refuse the call, and then the file, with
  its bytes, is found under the new name only.  A failed call changes nothing.
\<close>

definition rename_file :: "world \<Rightarrow> string \<Rightarrow> string \<Rightarrow> bool \<times> world" where
  "rename_file w src dst =
     (if src \<in> files w \<and> denied w (Rename src dst) = None
      then (True, w\<lparr>files := insert dst (files w - {src}),
                     content := (content w)(dst := content w src)\<rparr>)
      else (False, w))"

text \<open>
  \<^verbatim>\<open>open(file, O_RDONLY)\<close>: a descriptor at offset 0 over the bytes of the file, or
  the text of \<^verbatim>\<open>strerror(errno)\<close>, which for a missing file is that of \<^verbatim>\<open>ENOENT\<close>.
\<close>

record fd_state =
  fd_bytes :: string
  fd_pos :: nat


text \<open>
  Opening a file for writing and storing \<open>bytes\<close> in it, as \<^verbatim>\<open>std::ofstream\<close> and
  \<^verbatim>\<open>fopen(.., "wb")\<close> followed by the writes and the close do: the file is created or
  truncated; when it cannot be opened nothing is written and nothing is reported.
\<close>

definition write_file :: "world \<Rightarrow> string \<Rightarrow> string \<Rightarrow> world" where
  "write_file w file bytes =
     (if denied w (Open_write file) = None
      then w\<lparr>files := insert file (files w), content := (content w)(file := bytes)\<rparr>
      else w)"



definition CFile_move :: "world \<Rightarrow> string \<Rightarrow> string \<Rightarrow> bool \<times> world" where
  "CFile_move w src dst = rename_file w src dst"

text \<open>
  Modelled from the spec: \<^verbatim>\<open>CMaildir::bump_mtime()\<close> moves the modification time of
  the folder forward, as a signal that cached listings are stale.
\<close>

definition bump_mtime :: "CMaildir \<Rightarrow> CMaildir" where
  "bump_mtime d = d\<lparr>md_mtime := md_mtime d + 1\<rparr>"

text \<open>
  Modelled from the spec: \<^verbatim>\<open>CIMAPProxy::read_imap_output(cmd)\<close> sends one line to the
  proxy and returns the reply.
\<close>

definition read_imap_output :: "world \<Rightarrow> string \<Rightarrow> world \<times> string" where
  "read_imap_output w cmd = (w\<lparr>sent := sent w @ [cmd]\<rparr>, answer w cmd)"

text \<open>
  \<^verbatim>\<open>CMessage::lazy_load\<close>: fetch the body of a remote message into its cache file.
  The file did not exist, so appending to it stores the reply; when the stream cannot
  be opened nothing is written and the next call asks the proxy again.
\<close>

definition lazy_load :: "world \<Rightarrow> CMessage \<Rightarrow> world" where
  "lazy_load w m =
     (if m_path m \<notin> files w then
        let cmd = ''get_message '' @ to_string (m_imap_id m) @ '' '' @ md_path (parent w)
                    @ [CHR 0x0A];
            (w1, out) = read_imap_output w cmd
        in write_file w1 (m_path m) out
      else w)"

text \<open>\<^verbatim>\<open>CMessage::path()\<close>, and \<^verbatim>\<open>CMessage::path(new_path)\<close>, which stores a path.\<close>

definition path :: "world \<Rightarrow> CMessage \<Rightarrow> world \<times> string" where
  "path w m = ((if m_imap m then lazy_load w m else w), m_path m)"


text \<open>
  The value of a plain \<^verbatim>\<open>char\<close>, which is signed where lumail is built: the bytes
  from 0x80 on are negative and so come before the ASCII characters.
\<close>

definition schar :: "char \<Rightarrow> int" where
  "schar c = (if of_char c < (128 :: nat) then int (of_char c) else int (of_char c) - 256)"

text \<open>
  \<^verbatim>\<open>std::sort\<close> followed by \<^verbatim>\<open>erase(unique(..))\<close>.  \<^verbatim>\<open>std::sort\<close> compares the
  characters as \<^verbatim>\<open>char\<close> values; \<^verbatim>\<open>std::unique\<close> drops adjacent repetitions.
\<close>

definition sort_unique :: "string \<Rightarrow> string" where
  "sort_unique flags = remdups_adj (sort_key schar flags)"

text \<open>
  \<^verbatim>\<open>CMessage::get_flags\<close>.  A remote message returns before \<^verbatim>\<open>path()\<close> is called
  and \<^verbatim>\<open>path()\<close> of a local message only reads \<open>m_path\<close>, so nothing else changes.
\<close>

definition get_flags :: "CMessage \<Rightarrow> string" where
  "get_flags m =
     (if m_imap m then m_imap_flags m
      else
        let pth = m_path m in
        if pth = [] then []
        else
          let flags = (case str_find '':2,'' pth of
                         Some offset \<Rightarrow> drop (offset + 3) pth
                       | None \<Rightarrow> []);
              flags = (if str_find ''/new/'' pth \<noteq> None then flags @ ''N'' else flags)
          in sort_unique flags)"

text \<open>\<^verbatim>\<open>CMessage::set_flags\<close>.  The result of \<^verbatim>\<open>CFile::move\<close> is not looked at.\<close>

definition set_flags :: "world \<Rightarrow> CMessage \<Rightarrow> string \<Rightarrow> world \<times> CMessage" where
  "set_flags w m new_flags =
     (let flags = sort_unique new_flags;
          (w1, cur_path) = path w m;
          dst_path = (case str_find '':2,'' cur_path of
                        Some offset \<Rightarrow> take offset cur_path @ '':2,'' @ flags
                      | None \<Rightarrow> cur_path @ '':2,'' @ flags)
      in if cur_path \<noteq> dst_path
         then (snd (CFile_move w1 cur_path dst_path), m\<lparr>m_path := dst_path\<rparr>)
         else (w1, m))"


text \<open>\<^verbatim>\<open>CMessage::add_flag\<close>: the third component is the returned \<^verbatim>\<open>bool\<close>.\<close>

definition add_flag :: "world \<Rightarrow> CMessage \<Rightarrow> char \<Rightarrow> world \<times> CMessage \<times> bool" where
  "add_flag w m c =
     (let flags = get_flags m in
      if str_find [c] flags = None
      then (let (w1, m1) = set_flags w m (flags @ [c]) in (w1, m1, True))
      else (w, m, False))"

text \<open>\<^verbatim>\<open>CMessage::has_flag\<close>.\<close>

definition has_flag :: "CMessage \<Rightarrow> char \<Rightarrow> bool" where
  "has_flag m c = (str_find [toupper c] (get_flags m) \<noteq> None)"

text \<open>
  \<^verbatim>\<open>CMessage::remove_flag\<close>; the \<^verbatim>\<open>find\<close>/\<^verbatim>\<open>erase\<close> loop deletes every occurrence of
  the character.
\<close>

definition remove_flag :: "world \<Rightarrow> CMessage \<Rightarrow> char \<Rightarrow> world \<times> CMessage \<times> bool" where
  "remove_flag w m c0 =
     (let c = toupper c0;
          current = get_flags m
      in if str_find [c] current = None then (w, m, False)
         else (let (w1, m1) = set_flags w m (removeAll c current) in (w1, m1, True)))"

text \<open>\<^verbatim>\<open>CMessage::is_new\<close>.\<close>

definition is_new :: "CMessage \<Rightarrow> bool" where
  "is_new m = (if has_flag m CHR ''N'' \<or> \<not> has_flag m CHR ''S'' then True else False)"


text \<open>\<^verbatim>\<open>CMessage::mark_read\<close>, with \<open>N\<close> dropped and \<open>S\<close> appended in the remote branch.\<close>

definition mark_read :: "world \<Rightarrow> CMessage \<Rightarrow> world \<times> CMessage" where
  "mark_read w m =
     (if m_imap m then
        let folder = md_path (parent w);
            ident = to_string (m_imap_id m);
            cmd = ''mark_read '' @ ident @ '' '' @ folder @ [CHR 0x0A];
            w1 = fst (read_imap_output w cmd);
            flags1 = (if str_find ''N'' (m_imap_flags m) \<noteq> None
                      then removeAll CHR ''N'' (m_imap_flags m) else m_imap_flags m);
            flags2 = (if str_find ''S'' flags1 = None then flags1 @ ''S'' else flags1);
            m1 = m\<lparr>m_imap_flags := flags2, m_time := m_time m + 1\<rparr>;
            d1 = bump_mtime (parent w1);
            c = md_unread d1 - 1;
            c = (if sint c < 0 then 0 else c)
        in (w1\<lparr>parent := d1\<lparr>md_unread := c\<rparr>\<rparr>, m1)
      else
        let (w0, c_path) = path w m in
        case str_find ''/new/'' c_path of
          Some offset \<Rightarrow>
            let before = take offset c_path;
                after = drop (offset + length ''/new/'') c_path;
                n_path = before @ ''/cur/'' @ after;
                (ok, w1) = rename_file w0 c_path n_path
            in if ok
               then (let (w2, m2, r) = add_flag w1 (m\<lparr>m_path := n_path\<rparr>) CHR ''S''
                     in (w2, m2))
               else (w1, m)
        | None \<Rightarrow>
            let (w1, m1, r1) = remove_flag w0 m CHR ''N'';
                (w2, m2, r2) = add_flag w1 m1 CHR ''S''
            in (w2, m2))"


subsection \<open>Parsing and the caches\<close>

text \<open>
  An open file descriptor holds the bytes of the file and the read offset.
  \<^verbatim>\<open>read(fd, buf, 1)\<close> stores the next byte and advances; at the end of the file it
  returns 0 and leaves the buffer as it was.
\<close>

definition read1 :: "fd_state \<Rightarrow> char \<Rightarrow> int \<times> char \<times> fd_state" where
  "read1 fd buf =
     (if fd_pos fd < length (fd_bytes fd)
      then (1, fd_bytes fd ! fd_pos fd, fd\<lparr>fd_pos := fd_pos fd + 1\<rparr>)
      else (0, buf, fd))"

definition lseek_set :: "fd_state \<Rightarrow> nat \<Rightarrow> fd_state" where
  "lseek_set fd off = fd\<lparr>fd_pos := off\<rparr>"

text \<open>
  The loop of \<^verbatim>\<open>CMessage::parse_message\<close> that skips two lines:
  \<^verbatim>\<open>while ((newline > 0) && (count > 0)) { read; if (buf[0] == '\n') newline -= 1; count -= 1; }\<close>.
  The result holds the loop variables at exit and the descriptor.
\<close>

function skip_lines :: "int \<Rightarrow> int \<Rightarrow> char \<Rightarrow> fd_state \<Rightarrow> int \<times> int \<times> fd_state" where
  "skip_lines newline count buf fd =
     (if newline > 0 \<and> count > 0 then
        (let (result, buf1, fd1) = read1 fd buf;
             newline1 = (if buf1 = CHR 0x0A then newline - 1 else newline)
         in skip_lines newline1 (count - 1) buf1 fd1)
      else (newline, count, fd))"
  by pat_completeness auto
termination
  by (relation "measure (\<lambda>(newline, count, buf, fd). nat count)") auto

declare skip_lines.simps [simp del]

text \<open>
  What GMime hands back for a message it could parse, as far as \<^verbatim>\<open>populate_message\<close>
  reads it: the headers in order (name and decoded value) and the top-level part as
  \<^verbatim>\<open>part2obj\<close> converts it.
\<close>

record gmime =
  g_headers :: "(string \<times> string) list"
  g_part :: "CMessagePart option"

text \<open>
  \<^verbatim>\<open>CMessage::parse_message\<close> from the point where the descriptor is open:
  \<open>construct\<close> stands for \<^verbatim>\<open>g_mime_parser_construct_message\<close> on a stream over the
  descriptor, which parses the bytes from the current offset.
\<close>

definition parse_stream :: "(string \<Rightarrow> gmime option) \<Rightarrow> fd_state \<Rightarrow> gmime option" where
  "parse_stream construct fd =
     (case construct (drop (fd_pos fd) (fd_bytes fd)) of
        Some message \<Rightarrow> Some message
      | None \<Rightarrow>
          (let fd0 = lseek_set fd 0;
               (newline, count, fd1) = skip_lines 2 1024 (CHR 0x00) fd0
           in construct (drop (fd_pos fd1) (fd_bytes fd1))))"






text \<open>
  \<^verbatim>\<open>CMessage::header(name)\<close> on a message whose header cache is filled: the value stored
  under the lower-cased name, the empty string when there is none.
\<close>

definition header :: "CMessage \<Rightarrow> string \<Rightarrow> string" where
  "header m name = (case map_of (m_headers m) (map tolower name) of Some v \<Rightarrow> v | None \<Rightarrow> [])"



section \<open>The threader (threader.lua)\<close>

subsection \<open>The Lua patterns it uses\<close>

text \<open>\<^verbatim>\<open>%s\<close> and \<^verbatim>\<open>%d\<close> are \<^verbatim>\<open>isspace\<close> and \<^verbatim>\<open>isdigit\<close> of the C locale.\<close>

definition isspace :: "char \<Rightarrow> bool" where
  "isspace c = (c \<in> set [CHR '' '', CHR 0x09, CHR 0x0A, CHR 0x0B, CHR 0x0C, CHR 0x0D])"

definition isdigit :: "char \<Rightarrow> bool" where
  "isdigit c = (c \<in> set ''0123456789'')"

text \<open>
  The pattern \<^verbatim>\<open><([^>]+)>\<close> tried at the start of \<open>s\<close>: an opening bracket, the longest
  run of characters other than the closing bracket, which must not be empty, and the
  closing bracket.  The result is the capture and what follows the match.
\<close>

definition match_id_here :: "string \<Rightarrow> (string \<times> string) option" where
  "match_id_here s =
     (case s of
        [] \<Rightarrow> None
      | c # rest \<Rightarrow>
          if c = CHR ''<'' then
            (let run = takeWhile (\<lambda>x. x \<noteq> CHR ''>'') rest;
                 after = dropWhile (\<lambda>x. x \<noteq> CHR ''>'') rest
             in if run \<noteq> [] \<and> after \<noteq> [] then Some (run, tl after) else None)
          else None)"

text \<open>The first match, trying every start from the left.\<close>

fun find_id :: "string \<Rightarrow> (string \<times> string) option" where
  "find_id [] = None"
| "find_id (c # cs) =
     (case match_id_here (c # cs) of Some r \<Rightarrow> Some r | None \<Rightarrow> find_id cs)"

text \<open>\<^verbatim>\<open>string.match(s, "<([^>]+)>")\<close>.\<close>

definition match_id :: "string \<Rightarrow> string option" where
  "match_id s = map_option fst (find_id s)"

lemma match_id_here_shorter:
  assumes "match_id_here s = Some (cap, rest)"
  shows "length rest < length s"
proof -
  from assms obtain c r where s: "s = c # r"
    by (cases s) (auto simp: match_id_here_def)
  from assms s have "rest = tl (dropWhile (\<lambda>x. x \<noteq> CHR ''>'') r)"
    by (auto simp: match_id_here_def Let_def split: if_splits)
  moreover have "length (dropWhile (\<lambda>x. x \<noteq> CHR ''>'') r) \<le> length r"
    by (rule length_dropWhile_le)
  ultimately show ?thesis using s by simp
qed

lemma find_id_shorter: "find_id s = Some (cap, rest) \<Longrightarrow> length rest < length s"
proof (induction s)
  case Nil
  then show ?case by simp
next
  case (Cons c cs)
  then show ?case
    by (auto split: option.splits dest: match_id_here_shorter)
qed

text \<open>\<^verbatim>\<open>string.gmatch(s, "<([^>]+)>")\<close>: every match, each search starting where the last match ended.\<close>

function gmatch_ids :: "string \<Rightarrow> string list" where
  "gmatch_ids s =
     (case find_id s of None \<Rightarrow> [] | Some (cap, rest) \<Rightarrow> cap # gmatch_ids rest)"
  by pat_completeness auto
termination
  by (relation "measure length") (auto dest: find_id_shorter)

declare gmatch_ids.simps [simp del]

text \<open>
  \<^verbatim>\<open>string.match(s, ".*<([^>]+)>.*")\<close>: the leading \<^verbatim>\<open>.*\<close> is greedy, so the capture is
  taken at the last start where the bracket pattern matches.
\<close>

fun last_id :: "string \<Rightarrow> string option" where
  "last_id [] = None"
| "last_id (c # cs) =
     (case last_id cs of
        Some r \<Rightarrow> Some r
      | None \<Rightarrow> map_option fst (match_id_here (c # cs)))"

text \<open>
  The three subject patterns tried at the start of \<open>s\<close>, each giving the length of the
  match: \<^verbatim>\<open>R[Ee]:%s?\<close>, \<^verbatim>\<open>R[Ee]%[%d%]:%s?\<close> and \<^verbatim>\<open>F[wW][dD]:%s?\<close>.
\<close>

definition opt_space :: "string \<Rightarrow> nat" where
  "opt_space s = (case s of [] \<Rightarrow> 0 | c # cs \<Rightarrow> if isspace c then 1 else 0)"

fun pat_re :: "string \<Rightarrow> nat option" where
  "pat_re (c1 # c2 # c3 # rest) =
     (if c1 = CHR ''R'' \<and> (c2 = CHR ''E'' \<or> c2 = CHR ''e'') \<and> c3 = CHR '':''
      then Some (3 + opt_space rest) else None)"
| "pat_re s = None"

fun pat_re_n :: "string \<Rightarrow> nat option" where
  "pat_re_n (c1 # c2 # c3 # c4 # c5 # c6 # rest) =
     (if c1 = CHR ''R'' \<and> (c2 = CHR ''E'' \<or> c2 = CHR ''e'') \<and> c3 = CHR ''[''
         \<and> isdigit c4 \<and> c5 = CHR '']'' \<and> c6 = CHR '':''
      then Some (6 + opt_space rest) else None)"
| "pat_re_n s = None"

fun pat_fwd :: "string \<Rightarrow> nat option" where
  "pat_fwd (c1 # c2 # c3 # c4 # rest) =
     (if c1 = CHR ''F'' \<and> (c2 = CHR ''w'' \<or> c2 = CHR ''W'') \<and> (c3 = CHR ''d'' \<or> c3 = CHR ''D'')
         \<and> c4 = CHR '':''
      then Some (4 + opt_space rest) else None)"
| "pat_fwd s = None"

text \<open>
  \<^verbatim>\<open>string.gsub(s, pat, "")\<close> for a pattern given by its matcher: a match that is not
  empty is dropped and the scan goes on behind it, otherwise one character is copied.
\<close>

function gsub_del :: "(string \<Rightarrow> nat option) \<Rightarrow> string \<Rightarrow> string" where
  "gsub_del pat s =
     (case pat s of
        Some n \<Rightarrow>
          if 0 < n \<and> n \<le> length s then gsub_del pat (drop n s)
          else (case s of [] \<Rightarrow> [] | c # cs \<Rightarrow> c # gsub_del pat cs)
      | None \<Rightarrow> (case s of [] \<Rightarrow> [] | c # cs \<Rightarrow> c # gsub_del pat cs))"
  by pat_completeness auto
termination
  by (relation "measure (\<lambda>(pat, s). length s)") auto

declare gsub_del.simps [simp del]

text \<open>\<^verbatim>\<open>string.match(s, pat)\<close> as a truth value: the pattern matches at some start.\<close>

fun matches :: "(string \<Rightarrow> nat option) \<Rightarrow> string \<Rightarrow> bool" where
  "matches pat [] = (pat [] \<noteq> None)"
| "matches pat (c # cs) = (pat (c # cs) \<noteq> None \<or> matches pat cs)"


subsection \<open>Containers\<close>

text \<open>
  A container is a Lua table with the fields \<open>parent\<close>, \<open>message\<close>, \<open>children\<close> and,
  once \<^verbatim>\<open>find_subject\<close> has run, \<open>subject\<close>.  Containers refer to each other, so they
  live in a store: \<open>cell\<close> maps an address to the container there and \<open>top\<close> is the
  next free address.
\<close>

record Container =
  c_parent :: "nat option"
  c_message :: "CMessage option"
  c_children :: "nat list"
  c_subject :: "string option"

record heap =
  cell :: "nat \<Rightarrow> Container"
  top :: nat

text \<open>What can go wrong at run time: indexing \<^verbatim>\<open>nil\<close>, and a wrong argument to a library function.\<close>

datatype lua_error = IndexNil | BadArgument

definition empty_heap :: heap where
  "empty_heap =
     \<lparr>cell = (\<lambda>a. \<lparr>c_parent = None, c_message = None, c_children = [], c_subject = None\<rparr>),
      top = 0\<rparr>"

definition set_parent :: "heap \<Rightarrow> nat \<Rightarrow> nat option \<Rightarrow> heap" where
  "set_parent h a p = h\<lparr>cell := (cell h)(a := (cell h a)\<lparr>c_parent := p\<rparr>)\<rparr>"

definition set_message :: "heap \<Rightarrow> nat \<Rightarrow> CMessage option \<Rightarrow> heap" where
  "set_message h a m = h\<lparr>cell := (cell h)(a := (cell h a)\<lparr>c_message := m\<rparr>)\<rparr>"

definition set_children :: "heap \<Rightarrow> nat \<Rightarrow> nat list \<Rightarrow> heap" where
  "set_children h a cs = h\<lparr>cell := (cell h)(a := (cell h a)\<lparr>c_children := cs\<rparr>)\<rparr>"

definition set_subject :: "heap \<Rightarrow> nat \<Rightarrow> string option \<Rightarrow> heap" where
  "set_subject h a s = h\<lparr>cell := (cell h)(a := (cell h a)\<lparr>c_subject := s\<rparr>)\<rparr>"

text \<open>\<^verbatim>\<open>Container.new(msg)\<close>: the new store and the address of the new container.\<close>

definition Container_new :: "heap \<Rightarrow> CMessage option \<Rightarrow> heap \<times> nat" where
  "Container_new h msg =
     (h\<lparr>cell := (cell h)(top h :=
           \<lparr>c_parent = None, c_message = msg, c_children = [], c_subject = None\<rparr>),
        top := Suc (top h)\<rparr>,
      top h)"

text \<open>
  The loop \<^verbatim>\<open>for _, v in ipairs(children) do if f(v) then return true end end return false\<close>
  of \<^verbatim>\<open>has_unread\<close> and \<^verbatim>\<open>has_descandent\<close>, where \<open>f\<close> may fail to return.
\<close>

fun any_child :: "(nat \<Rightarrow> bool option) \<Rightarrow> nat list \<Rightarrow> bool option" where
  "any_child f [] = Some False"
| "any_child f (child # rest) =
     Option.bind (f child) (\<lambda>b. if b then Some True else any_child f rest)"

lemma any_child_mono [partial_function_mono]:
  assumes "\<And>x. mono_option (\<lambda>f. B f x)"
  shows "mono_option (\<lambda>f. any_child (B f) xs)"
proof (induction xs)
  case Nil
  show ?case by (simp add: option.const_mono)
next
  case (Cons x xs)
  show ?case
    unfolding any_child.simps
    by (intro partial_function_mono assms Cons)
qed

lemma any_child_weak_cong [cong]: "xs = ys \<Longrightarrow> any_child f xs = any_child f ys"
  by simp

text \<open>\<^verbatim>\<open>Container.has_unread\<close>; \<open>None\<close> stands for a call that does not return.\<close>

partial_function (option) has_unread :: "heap \<Rightarrow> nat \<Rightarrow> bool option" where
  "has_unread h self =
     (if (case c_message (cell h self) of Some m \<Rightarrow> is_new m | None \<Rightarrow> False) then Some True
      else any_child (\<lambda>v. has_unread h v) (c_children (cell h self)))"

declare has_unread.simps [code]

text \<open>\<^verbatim>\<open>Container.has_descandent\<close>.\<close>

partial_function (option) has_descandent :: "heap \<Rightarrow> nat \<Rightarrow> nat \<Rightarrow> bool option" where
  "has_descandent h self cont =
     (if self = cont then Some True
      else if length (c_children (cell h self)) = 0 then Some False
      else any_child (\<lambda>child. has_descandent h child cont) (c_children (cell h self)))"

declare has_descandent.simps [code]

text \<open>
  Modelled from the spec: \<^verbatim>\<open>table.delete(t, v)\<close> comes from \<^verbatim>\<open>table_utilities\<close>, which is
  not among the sources; \<^verbatim>\<open>remove_child\<close> relies on it to take \<open>v\<close> out of the array
  \<open>t\<close> (the specification: a removed container is no longer among the children).
\<close>

definition table_delete :: "nat list \<Rightarrow> nat \<Rightarrow> nat list" where
  "table_delete t v = remove1 v t"

text \<open>\<^verbatim>\<open>Container.remove_child\<close> and \<^verbatim>\<open>Container.add_child\<close>.\<close>

definition remove_child :: "heap \<Rightarrow> nat \<Rightarrow> nat \<Rightarrow> heap" where
  "remove_child h self child =
     (let h1 = set_children h self (table_delete (c_children (cell h self)) child)
      in set_parent h1 child None)"

definition add_child :: "heap \<Rightarrow> nat \<Rightarrow> nat \<Rightarrow> heap" where
  "add_child h self child =
     (let h1 = (case c_parent (cell h child) of
                  Some p \<Rightarrow> remove_child h p child
                | None \<Rightarrow> h);
          h2 = set_parent h1 child (Some self)
      in set_children h2 self (c_children (cell h2 self) @ [child]))"

text \<open>
  \<^verbatim>\<open>Container.transfer_children\<close>: the loop runs \<open>i\<close> from the number of children down
  to one and moves the last child each time.  It is never called with \<open>self = new\<close>.
\<close>

fun transfer_loop :: "nat \<Rightarrow> heap \<Rightarrow> nat \<Rightarrow> nat \<Rightarrow> heap" where
  "transfer_loop 0 h self new = h"
| "transfer_loop (Suc i) h self new =
     (let child = c_children (cell h self) ! i;
          h1 = set_parent h child (Some new);
          h2 = set_children h1 new (c_children (cell h1 new) @ [child]);
          h3 = set_children h2 self (take i (c_children (cell h2 self)))
      in transfer_loop i h3 self new)"

definition transfer_children :: "heap \<Rightarrow> nat \<Rightarrow> nat \<Rightarrow> heap" where
  "transfer_children h self new =
     transfer_loop (length (c_children (cell h self))) h self new"

text \<open>
  \<^verbatim>\<open>Container.find_subject\<close>: the remembered subject, or else the subject of the message
  or of the message of the first child, which is then remembered.  Without a message
  and without a first child that has one, Lua stops with an error.
\<close>

definition find_subject :: "heap \<Rightarrow> nat \<Rightarrow> lua_error + heap \<times> string" where
  "find_subject h self =
     (case c_subject (cell h self) of
        Some s \<Rightarrow> Inr (h, s)
      | None \<Rightarrow>
          (case (case c_message (cell h self) of
                   Some m \<Rightarrow> Inr (header m ''Subject'')
                 | None \<Rightarrow>
                     (case c_children (cell h self) of
                        [] \<Rightarrow> Inl IndexNil
                      | child # others \<Rightarrow>
                          (case c_message (cell h child) of
                             None \<Rightarrow> Inl IndexNil
                           | Some m \<Rightarrow> Inr (header m ''Subject''))))
           of Inl e \<Rightarrow> Inl e
            | Inr subject \<Rightarrow> Inr (set_subject h self (Some subject), subject)))"

text \<open>\<^verbatim>\<open>Container.get_normalized_subject\<close> and \<^verbatim>\<open>Container.is_reply\<close>.\<close>

definition get_normalized_subject :: "heap \<Rightarrow> nat \<Rightarrow> lua_error + heap \<times> string" where
  "get_normalized_subject h self =
     (case find_subject h self of
        Inl e \<Rightarrow> Inl e
      | Inr (h1, subject) \<Rightarrow>
          Inr (h1, gsub_del pat_fwd (gsub_del pat_re_n (gsub_del pat_re subject))))"

definition is_reply :: "heap \<Rightarrow> nat \<Rightarrow> lua_error + heap \<times> bool" where
  "is_reply h self =
     (case find_subject h self of
        Inl e \<Rightarrow> Inl e
      | Inr (h1, subject) \<Rightarrow> Inr (h1, matches pat_re subject \<or> matches pat_re_n subject))"

text \<open>
  Results of code that may stop with a Lua error and may fail to return: \<open>None\<close> for no
  return, \<open>Some (Inl e)\<close> for the error \<open>e\<close>.
\<close>

definition rbind ::
  "(lua_error + 'a) option \<Rightarrow> ('a \<Rightarrow> (lua_error + 'b) option) \<Rightarrow> (lua_error + 'b) option"
where
  "rbind m f = (case m of None \<Rightarrow> None | Some (Inl e) \<Rightarrow> Some (Inl e) | Some (Inr x) \<Rightarrow> f x)"

lemma rbind_mono [partial_function_mono]:
  assumes "mono_option B" and "\<And>y. mono_option (\<lambda>f. C y f)"
  shows "mono_option (\<lambda>f. rbind (B f) (\<lambda>y. C y f))"
proof (rule monotoneI)
  fix f g :: "'a \<Rightarrow> 'b option"
  assume fg: "option.le_fun f g"
  from assms(1) fg have b: "option_ord (B f) (B g)"
    unfolding monotone_on_def by blast
  have c: "option_ord (C y f) (C y g)" for y
    using assms(2) [of y] fg unfolding monotone_on_def by blast
  show "option_ord (rbind (B f) (\<lambda>y. C y f)) (rbind (B g) (\<lambda>y. C y g))"
  proof (cases "B f")
    case None
    then show ?thesis by (simp add: rbind_def flat_ord_def)
  next
    case (Some r)
    with b have "B g = Some r" by (simp add: flat_ord_def)
    with Some c show ?thesis
      by (cases r) (simp_all add: rbind_def flat_ord_def)
  qed
qed

text \<open>
  The loop at the head of \<^verbatim>\<open>Container.prune_empty\<close>: \<open>i\<close> runs from the number of
  children down to one and \<^verbatim>\<open>self.children[i]\<close> is read anew each time.
\<close>

fun prune_loop ::
  "(heap \<Rightarrow> nat \<Rightarrow> (lua_error + heap) option) \<Rightarrow> nat \<Rightarrow> heap \<Rightarrow> nat \<Rightarrow> (lua_error + heap) option"
where
  "prune_loop f self h 0 = Some (Inr h)"
| "prune_loop f self h (Suc i) =
     (if i < length (c_children (cell h self))
      then rbind (f h (c_children (cell h self) ! i)) (\<lambda>h1. prune_loop f self h1 i)
      else Some (Inl IndexNil))"

lemma prune_loop_mono [partial_function_mono]:
  assumes "\<And>h a. mono_option (\<lambda>f. B f h a)"
  shows "mono_option (\<lambda>f. prune_loop (B f) self h i)"
proof (induction i arbitrary: h)
  case 0
  show ?case by (simp add: option.const_mono)
next
  case (Suc i)
  show ?case
    unfolding prune_loop.simps
    by (intro partial_function_mono assms Suc)
qed

lemma prune_loop_weak_cong [cong]: "i = j \<Longrightarrow> prune_loop f self h i = prune_loop f self h j"
  by simp

text \<open>\<^verbatim>\<open>Container.prune_empty\<close>.\<close>

partial_function (option) prune_empty :: "heap \<Rightarrow> nat \<Rightarrow> (lua_error + heap) option" where
  "prune_empty h self =
     rbind (prune_loop prune_empty self h (length (c_children (cell h self))))
       (\<lambda>h1. Some (Inr
          (if c_message (cell h1 self) = None then
             (case c_parent (cell h1 self) of
                Some p \<Rightarrow>
                  if length (c_children (cell h1 self)) = 0 then remove_child h1 p self
                  else remove_child (transfer_children h1 self p) p self
              | None \<Rightarrow>
                  if length (c_children (cell h1 self)) = 1 then
                    (let child = c_children (cell h1 self) ! 0;
                         h2 = remove_child h1 self child;
                         h3 = transfer_children h2 child self
                     in set_message h3 self (c_message (cell h3 child)))
                  else h1)
           else h1)))"

declare prune_empty.simps [code]


subsection \<open>Threading\<close>

text \<open>\<^verbatim>\<open>Container.get_references\<close>, for the message of the container.\<close>

definition get_references :: "CMessage \<Rightarrow> string list" where
  "get_references m =
     (let references = gmatch_ids (header m ''References'');
          reply_to = last_id (header m ''In-Reply-To'')
      in if (if references = [] then None else Some (last references)) \<noteq> reply_to
         then (case reply_to of None \<Rightarrow> references | Some r \<Rightarrow> references @ [r])
         else references)"

text \<open>
  The tables \<open>id_table\<close> and \<open>subject_table\<close> are association lists; \<^verbatim>\<open>t[k] = v\<close> replaces
  the entry of a key that is there and appends a new one otherwise.  \<^verbatim>\<open>pairs\<close> visits
  the entries in some order that Lua does not fix; the list order stands for it.
\<close>

fun tbl_set :: "string \<Rightarrow> nat \<Rightarrow> (string \<times> nat) list \<Rightarrow> (string \<times> nat) list" where
  "tbl_set k v [] = [(k, v)]"
| "tbl_set k v (p # ps) = (if fst p = k then (k, v) # ps else p # tbl_set k v ps)"

text \<open>
  The state of the first loop of \<^verbatim>\<open>Threader.thread\<close>: the containers, \<open>id_table\<close>,
  \<open>roots\<close> and the messages recorded in \<^verbatim>\<open>Threader.overridden\<close>.
\<close>

record tstate =
  st_heap :: heap
  st_ids :: "(string \<times> nat) list"
  st_roots :: "nat list"
  st_overridden :: "CMessage list"

text \<open>
  Step 1.B: the loop over the references of one message.  \<open>prev\<close> is \<open>None\<close> for
  \<^verbatim>\<open>nil\<close>.  The Lua \<^verbatim>\<open>and\<close> calls \<^verbatim>\<open>has_descandent\<close> only when \<open>prev\<close> is set and \<open>cur\<close>
  has no parent.
\<close>

fun link_refs ::
  "heap \<Rightarrow> (string \<times> nat) list \<Rightarrow> nat option \<Rightarrow> string list
   \<Rightarrow> (heap \<times> (string \<times> nat) list \<times> nat option) option"
where
  "link_refs h ids prev [] = Some (h, ids, prev)"
| "link_refs h ids prev (ref # refs) =
     (let (h1, ids1, cur) =
            (case map_of ids ref of
               Some cur \<Rightarrow> (h, ids, cur)
             | None \<Rightarrow> (let (h0, cur) = Container_new h None in (h0, ids @ [(ref, cur)], cur)))
      in case prev of
           None \<Rightarrow> link_refs h1 ids1 (Some cur) refs
         | Some p \<Rightarrow>
             if c_parent (cell h1 cur) = None then
               Option.bind (has_descandent h1 cur p)
                 (\<lambda>d. if \<not> d then link_refs (add_child h1 p cur) ids1 (Some cur) refs
                      else link_refs h1 ids1 (Some cur) refs)
             else link_refs h1 ids1 (Some cur) refs)"

text \<open>Steps 1.A to 1.C for one message.\<close>

definition thread_message :: "tstate \<Rightarrow> CMessage \<Rightarrow> tstate option" where
  "thread_message s msg =
     (case match_id (header msg ''Message-ID'') of
        None \<Rightarrow>
          (let (h1, c) = Container_new (st_heap s) (Some msg)
           in Some (s\<lparr>st_heap := h1, st_roots := st_roots s @ [c]\<rparr>))
      | Some msgid \<Rightarrow>
          (let (h1, ids1, ov1, par) =
                 (case map_of (st_ids s) msgid of
                    None \<Rightarrow>
                      (let (h0, par) = Container_new (st_heap s) (Some msg)
                       in (h0, st_ids s @ [(msgid, par)], st_overridden s, par))
                  | Some par \<Rightarrow>
                      (set_message (st_heap s) par (Some msg), st_ids s,
                       (case c_message (cell (st_heap s) par) of
                          Some old \<Rightarrow> st_overridden s @ [old]
                        | None \<Rightarrow> st_overridden s),
                       par))
           in Option.bind (link_refs h1 ids1 None (get_references msg))
                (\<lambda>(h2, ids2, prev).
                   case prev of
                     None \<Rightarrow>
                       Some (s\<lparr>st_heap := h2, st_ids := ids2, st_overridden := ov1\<rparr>)
                   | Some p \<Rightarrow>
                       Option.bind (has_descandent h2 par p)
                         (\<lambda>d. Some (s\<lparr>st_heap := (if \<not> d then add_child h2 p par else h2),
                                        st_ids := ids2, st_overridden := ov1\<rparr>)))))"

text \<open>Step 1: the loop over the messages.\<close>

fun link_all :: "tstate \<Rightarrow> CMessage list \<Rightarrow> tstate option" where
  "link_all s [] = Some s"
| "link_all s (msg # msgs) = Option.bind (thread_message s msg) (\<lambda>s1. link_all s1 msgs)"

definition initial_state :: tstate where
  "initial_state = \<lparr>st_heap = empty_heap, st_ids = [], st_roots = [], st_overridden = []\<rparr>"

text \<open>Step 2: the containers of \<open>id_table\<close> without a parent join the roots.\<close>

definition find_roots :: "tstate \<Rightarrow> nat list" where
  "find_roots s =
     st_roots s @ map snd (filter (\<lambda>(k, v). c_parent (cell (st_heap s) v) = None) (st_ids s))"

text \<open>Step 4: prune every root.\<close>

fun prune_roots :: "heap \<Rightarrow> nat list \<Rightarrow> (lua_error + heap) option" where
  "prune_roots h [] = Some (Inr h)"
| "prune_roots h (v # vs) =
     (case prune_empty h v of
        None \<Rightarrow> None
      | Some (Inl e) \<Rightarrow> Some (Inl e)
      | Some (Inr h1) \<Rightarrow> prune_roots h1 vs)"

text \<open>Step 5.B: the subject table and the roots without subject.\<close>

fun collect_subjects ::
  "heap \<Rightarrow> (string \<times> nat) list \<Rightarrow> nat list \<Rightarrow> nat list
   \<Rightarrow> lua_error + heap \<times> (string \<times> nat) list \<times> nat list"
where
  "collect_subjects h tbl ws [] = Inr (h, tbl, ws)"
| "collect_subjects h tbl ws (root # rest) =
     (case get_normalized_subject h root of
        Inl e \<Rightarrow> Inl e
      | Inr (h1, subject) \<Rightarrow>
          if subject \<noteq> [] then
            (case map_of tbl subject of
               None \<Rightarrow> collect_subjects h1 (tbl_set subject root tbl) ws rest
             | Some target \<Rightarrow>
                 if c_message (cell h1 target) \<noteq> None \<and> c_message (cell h1 root) = None
                 then collect_subjects h1 (tbl_set subject root tbl) ws rest
                 else collect_subjects h1 tbl ws rest)
          else collect_subjects h1 tbl (ws @ [root]) rest)"

text \<open>Step 5.C: group the roots by subject.\<close>

fun merge_subjects ::
  "heap \<Rightarrow> (string \<times> nat) list \<Rightarrow> nat list \<Rightarrow> lua_error + heap \<times> (string \<times> nat) list"
where
  "merge_subjects h tbl [] = Inr (h, tbl)"
| "merge_subjects h tbl (root # rest) =
     (case get_normalized_subject h root of
        Inl e \<Rightarrow> Inl e
      | Inr (h1, subject) \<Rightarrow>
          (case map_of tbl subject of
             None \<Rightarrow> merge_subjects h1 tbl rest
           | Some target \<Rightarrow>
               if target \<noteq> root then
                 (if c_message (cell h1 target) = None \<and> c_message (cell h1 root) = None
                    then merge_subjects (transfer_children h1 root target) tbl rest
                  else if c_message (cell h1 target) = None
                    then merge_subjects (add_child h1 target root) tbl rest
                  else if c_message (cell h1 root) = None
                    then merge_subjects (add_child h1 root target) (tbl_set subject root tbl) rest
                  else
                    (case is_reply h1 root of
                       Inl e \<Rightarrow> Inl e
                     | Inr (h2, is_root_reply) \<Rightarrow>
                         (case is_reply h2 target of
                            Inl e \<Rightarrow> Inl e
                          | Inr (h3, is_target_reply) \<Rightarrow>
                              if is_root_reply \<and> \<not> is_target_reply
                                then merge_subjects (add_child h3 target root) tbl rest
                              else if \<not> is_root_reply \<and> is_target_reply
                                then merge_subjects (add_child h3 root target)
                                       (tbl_set subject root tbl) rest
                              else
                                (let (h4, parent) = Container_new h3 None;
                                     h5 = add_child h4 parent root;
                                     h6 = add_child h5 parent target
                                 in merge_subjects h6 (tbl_set subject parent tbl) rest))))
               else merge_subjects h1 tbl rest))"

text \<open>
  Modelled from the spec: the method \<^verbatim>\<open>to_ctime()\<close> of a message is a Lua binding whose
  source is not at hand; it gives the time of the message as a number, by which the
  specification finds the chronologically oldest child.
\<close>

definition to_ctime :: "CMessage \<Rightarrow> int" where
  "to_ctime m = m_ctime m"

text \<open>
  The step that differs from the original algorithm: an empty root of the subject table
  is replaced by its oldest child unless that is a reply.  \<^verbatim>\<open>find_oldest\<close> is the inner
  loop over the children.
\<close>

fun find_oldest :: "heap \<Rightarrow> nat \<Rightarrow> int \<Rightarrow> nat list \<Rightarrow> lua_error + nat" where
  "find_oldest h oldest oldest_ctime [] = Inr oldest"
| "find_oldest h oldest oldest_ctime (c # cs) =
     (case c_message (cell h c) of
        None \<Rightarrow> Inl IndexNil
      | Some m \<Rightarrow>
          (let c_ctime = to_ctime m
           in if c_ctime < oldest_ctime then find_oldest h c c_ctime cs
              else find_oldest h oldest oldest_ctime cs))"

fun replace_empty ::
  "heap \<Rightarrow> (string \<times> nat) list \<Rightarrow> (string \<times> nat) list \<Rightarrow> lua_error + heap \<times> (string \<times> nat) list"
where
  "replace_empty h tbl [] = Inr (h, tbl)"
| "replace_empty h tbl ((k, r) # rest) =
     (if c_message (cell h r) = None then
        (case c_children (cell h r) of
           [] \<Rightarrow> Inl IndexNil
         | first # others \<Rightarrow>
             (case c_message (cell h first) of
                None \<Rightarrow> Inl IndexNil
              | Some m0 \<Rightarrow>
                  (case find_oldest h first (to_ctime m0) (c_children (cell h r)) of
                     Inl e \<Rightarrow> Inl e
                   | Inr oldest \<Rightarrow>
                       (case is_reply h oldest of
                          Inl e \<Rightarrow> Inl e
                        | Inr (h1, reply) \<Rightarrow>
                            if \<not> reply then
                              (let h2 = remove_child h1 r oldest;
                                   h3 = transfer_children h2 r oldest
                               in replace_empty h3 (tbl_set k oldest tbl) rest)
                            else replace_empty h1 tbl rest))))
      else replace_empty h tbl rest)"

text \<open>Steps 5.B to the end, on the pruned roots.\<close>

definition group_by_subject :: "heap \<Rightarrow> nat list \<Rightarrow> lua_error + heap \<times> nat list" where
  "group_by_subject h roots =
     (case collect_subjects h [] [] roots of
        Inl e \<Rightarrow> Inl e
      | Inr (h1, subject_table, without_subject) \<Rightarrow>
          (case merge_subjects h1 subject_table roots of
             Inl e \<Rightarrow> Inl e
           | Inr (h2, subject_table2) \<Rightarrow>
               (case replace_empty h2 subject_table2 subject_table2 of
                  Inl e \<Rightarrow> Inl e
                | Inr (h3, subject_table3) \<Rightarrow>
                    Inr (h3, without_subject @ map snd subject_table3))))"

text \<open>\<^verbatim>\<open>Threader.thread\<close>: the containers and the list of roots.\<close>

definition thread :: "CMessage list \<Rightarrow> (lua_error + heap \<times> nat list) option" where
  "thread messages =
     (case link_all initial_state messages of
        None \<Rightarrow> None
      | Some s \<Rightarrow>
          (case prune_roots (st_heap s) (find_roots s) of
             None \<Rightarrow> None
           | Some (Inl e) \<Rightarrow> Some (Inl e)
           | Some (Inr h) \<Rightarrow> Some (group_by_subject h (find_roots s))))"


subsection \<open>Sorting\<close>

text \<open>
  \<^verbatim>\<open>Container.cmp_wrapper\<close> applied to a store; \<open>cmp_func\<close> is the comparison of messages
  that the caller supplies, and it is handed \<^verbatim>\<open>nil\<close> for an empty container.
\<close>

definition cmp_wrapper ::
  "(CMessage option \<Rightarrow> CMessage option \<Rightarrow> bool) \<Rightarrow> heap \<Rightarrow> nat \<Rightarrow> nat \<Rightarrow> lua_error + bool"
where
  "cmp_wrapper cmp_func h a b = Inr (cmp_func (c_message (cell h a)) (c_message (cell h b)))"

text \<open>The loop \<^verbatim>\<open>for i, v in ipairs(children) do v:sort(cmp_func) end\<close>.\<close>

fun sort_each :: "(heap \<Rightarrow> nat \<Rightarrow> (lua_error + heap) option) \<Rightarrow> heap \<Rightarrow> nat list
  \<Rightarrow> (lua_error + heap) option"
where
  "sort_each f h [] = Some (Inr h)"
| "sort_each f h (v # vs) = rbind (f h v) (\<lambda>h1. sort_each f h1 vs)"

lemma sort_each_mono [partial_function_mono]:
  assumes "\<And>h a. mono_option (\<lambda>f. B f h a)"
  shows "mono_option (\<lambda>f. sort_each (B f) h vs)"
proof (induction vs arbitrary: h)
  case Nil
  show ?case by (simp add: option.const_mono)
next
  case (Cons v vs)
  show ?case
    unfolding sort_each.simps
    by (intro partial_function_mono assms Cons)
qed

lemma sort_each_weak_cong [cong]: "vs = ws \<Longrightarrow> sort_each f h vs = sort_each f h ws"
  by simp

text \<open>
  \<^verbatim>\<open>Container.sort\<close>.  \<open>table_sort\<close> stands for \<^verbatim>\<open>table.sort\<close> of the Lua library, which
  passes on an error of the comparison.
\<close>

partial_function (option) Container_sort ::
  "((nat \<Rightarrow> nat \<Rightarrow> lua_error + bool) \<Rightarrow> nat list \<Rightarrow> lua_error + nat list)
   \<Rightarrow> (CMessage option \<Rightarrow> CMessage option \<Rightarrow> bool) \<Rightarrow> heap \<Rightarrow> nat \<Rightarrow> (lua_error + heap) option"
where
  "Container_sort table_sort cmp_func h self =
     rbind (sort_each (Container_sort table_sort cmp_func) h (c_children (cell h self)))
       (\<lambda>h1. case table_sort (cmp_wrapper cmp_func h1) (c_children (cell h1 self)) of
               Inl e \<Rightarrow> Some (Inl e)
             | Inr sorted_children \<Rightarrow> Some (Inr (set_children h1 self sorted_children)))"

declare Container_sort.simps [code]

text \<open>
  \<^verbatim>\<open>root_cmp_wrapper\<close> of \<^verbatim>\<open>Threader.sort\<close>: an empty root is compared by its first
  child; without one, \<^verbatim>\<open>cmp_wrapper\<close> indexes \<^verbatim>\<open>nil\<close>.
\<close>

definition root_cmp_wrapper ::
  "(CMessage option \<Rightarrow> CMessage option \<Rightarrow> bool) \<Rightarrow> heap \<Rightarrow> nat \<Rightarrow> nat \<Rightarrow> lua_error + bool"
where
  "root_cmp_wrapper cmp_func h a b =
     (let first_or_self = (\<lambda>x. if c_message (cell h x) = None
                                then (case c_children (cell h x) of [] \<Rightarrow> None | c # cs \<Rightarrow> Some c)
                                else Some x)
      in case (first_or_self a, first_or_self b) of
           (Some a1, Some b1) \<Rightarrow> cmp_wrapper cmp_func h a1 b1
         | _ \<Rightarrow> Inl IndexNil)"

text \<open>
  The loop that is to move the threads with unread messages: \<open>i\<close> runs from the number
  of roots down to one.  \<^verbatim>\<open>table.remove(i)\<close> is called with the number \<open>i\<close> where the
  library expects a table, which is an error.
\<close>

fun promote_loop :: "heap \<Rightarrow> nat list \<Rightarrow> nat \<Rightarrow> (lua_error + nat list) option" where
  "promote_loop h roots 0 = Some (Inr roots)"
| "promote_loop h roots (Suc i) =
     (if i < length roots then
        Option.bind (has_unread h (roots ! i))
          (\<lambda>unread. if unread then Some (Inl BadArgument) else promote_loop h roots i)
      else Some (Inl IndexNil))"

text \<open>\<^verbatim>\<open>Threader.sort\<close>.\<close>

definition Threader_sort ::
  "((nat \<Rightarrow> nat \<Rightarrow> lua_error + bool) \<Rightarrow> nat list \<Rightarrow> lua_error + nat list)
   \<Rightarrow> heap \<Rightarrow> nat list \<Rightarrow> (CMessage option \<Rightarrow> CMessage option \<Rightarrow> bool) \<Rightarrow> bool
   \<Rightarrow> (lua_error + heap \<times> nat list) option"
where
  "Threader_sort table_sort h roots cmp_func promote_unread =
     rbind (sort_each (Container_sort table_sort cmp_func) h roots)
       (\<lambda>h1. case table_sort (root_cmp_wrapper cmp_func h1) roots of
               Inl e \<Rightarrow> Some (Inl e)
             | Inr roots1 \<Rightarrow>
                 if promote_unread
                 then rbind (promote_loop h1 roots1 (length roots1)) (\<lambda>roots2. Some (Inr (h1, roots2)))
                 else Some (Inr (h1, roots1)))"


section \<open>Notions of the specification and examples\<close>

text \<open>
  The canonical form of a flag string in the words of the specification: sorted,
  duplicate-free, upper-case letters only.
\<close>

definition isupper :: "char \<Rightarrow> bool" where
  "isupper c = (CHR ''A'' \<le> c \<and> c \<le> CHR ''Z'')"

definition canonical :: "string \<Rightarrow> bool" where
  "canonical fs = (sorted fs \<and> distinct fs \<and> list_all isupper fs)"

text \<open>
  The two halves of a Maildir file name: what stands before the first \<^verbatim>\<open>:2,\<close> (the
  whole name when there is none) and what follows it.
\<close>

definition info_prefix :: "string \<Rightarrow> string" where
  "info_prefix p = (case str_find '':2,'' p of Some offset \<Rightarrow> take offset p | None \<Rightarrow> p)"

definition info_suffix :: "string \<Rightarrow> string" where
  "info_suffix p = (case str_find '':2,'' p of Some offset \<Rightarrow> drop (offset + 3) p | None \<Rightarrow> [])"





text \<open>
  A small world to run the operations in: one unread and one read message on disk, and
  a system that refuses nothing.  In \<open>w_nocur\<close> every rename is refused, as in a folder
  without \<^verbatim>\<open>cur/\<close>.
\<close>

definition w0 :: world where
  "w0 = \<lparr>files = {''/m/new/a'', ''/m/cur/b:2,S''}, content = (\<lambda>p. []),
         denied = (\<lambda>c. None), answer = (\<lambda>c. []), sent = [], errors = [],
         parent = \<lparr>md_path = ''/m'', md_unread = 1, md_mtime = 0\<rparr>\<rparr>"

definition w_nocur :: world where
  "w_nocur = w0\<lparr>denied := (\<lambda>c. case c of Rename src dst \<Rightarrow> Some ''No such file or directory''
                                      | _ \<Rightarrow> None)\<rparr>"


text \<open>
  A file that GMime rejects as a whole and accepts from its third line on, and a message
  whose caches are filled.
\<close>

definition ex_fd :: fd_state where
  "ex_fd = \<lparr>fd_bytes = ''>From x'' @ [CHR 0x0A] @ ''junk'' @ [CHR 0x0A] @ ''Subject: hi'', fd_pos = 0\<rparr>"

definition ex_construct :: "string \<Rightarrow> gmime option" where
  "ex_construct s =
     (if s = ''Subject: hi'' then Some \<lparr>g_headers = [(''Subject'', ''hi'')], g_part = None\<rparr>
      else None)"




text \<open>
  What a caller sees of the result of \<^verbatim>\<open>Threader.thread\<close>: the roots and, for every
  container in the order of creation, its parent, message and children.
\<close>

definition forest_view ::
  "(lua_error + heap \<times> nat list) option
   \<Rightarrow> (lua_error + nat list \<times> (nat option \<times> CMessage option \<times> nat list) list) option"
where
  "forest_view r =
     (case r of
        None \<Rightarrow> None
      | Some (Inl e) \<Rightarrow> Some (Inl e)
      | Some (Inr (h, roots)) \<Rightarrow>
          Some (Inr (roots,
            map (\<lambda>a. (c_parent (cell h a), c_message (cell h a), c_children (cell h a)))
              [0..<top h])))"



definition unread_root :: "heap \<times> nat" where
  "unread_root = Container_new empty_heap (Some (new_CMessage ''/m/new/a'' True))"


text \<open>
  The offset the specification describes for the recovery scan: the length of the
  shortest prefix that holds \<open>k\<close> newline characters, the whole length when there are
  fewer.
\<close>

fun past_newlines :: "nat \<Rightarrow> string \<Rightarrow> nat" where
  "past_newlines 0 s = 0"
| "past_newlines (Suc k) [] = 0"
| "past_newlines (Suc k) (c # cs) =
     Suc (if c = CHR 0x0A then past_newlines k cs else past_newlines (Suc k) cs)"

text \<open>
  The shape the specification asks of the containers: following children never leads
  back (no container is its own ancestor), a container listed as a child names that
  container as its parent (so it is listed by one container only), no child is listed
  twice, and all children exist.
\<close>

definition child_rel :: "heap \<Rightarrow> (nat \<times> nat) set" where
  "child_rel h = {(c, p). c \<in> set (c_children (cell h p))}"

definition forest :: "heap \<Rightarrow> bool" where
  "forest h \<longleftrightarrow>
     wf (child_rel h)
     \<and> (\<forall>p c. c \<in> set (c_children (cell h p)) \<longrightarrow> c_parent (cell h c) = Some p)
     \<and> (\<forall>p. distinct (c_children (cell h p)))
     \<and> (\<forall>p c. c \<in> set (c_children (cell h p)) \<longrightarrow> c < top h)"

text \<open>
  The invariant of the first loop of \<^verbatim>\<open>Threader.thread\<close>: the containers form a forest,
  the containers of \<open>id_table\<close> exist, and the containers in \<open>R\<close> (those of messages
  without Message-ID) exist, are not in \<open>id_table\<close> and have neither parent nor
  children.
\<close>

definition link_inv :: "heap \<Rightarrow> (string \<times> nat) list \<Rightarrow> nat set \<Rightarrow> bool" where
  "link_inv h ids R \<longleftrightarrow>
     forest h
     \<and> (\<forall>v \<in> snd ` set ids. v < top h)
     \<and> (\<forall>r \<in> R. r < top h \<and> r \<notin> snd ` set ids
            \<and> c_parent (cell h r) = None \<and> c_children (cell h r) = [])"



section \<open>Flags: what is proved\<close>

subsection \<open>Facts about \<open>str_find\<close> and \<open>sort_unique\<close>\<close>

lemma prefix_new_boundary:
  assumes "prefix ''/new/'' (d @ ''/new/'' @ t)" "d \<noteq> []"
  shows "prefix ''/new/'' (d @ ''/'')"
proof -
  consider c1 where "d = [c1]" | c1 c2 where "d = [c1, c2]" | c1 c2 c3 where "d = [c1, c2, c3]"
    | c1 c2 c3 c4 r where "d = c1 # c2 # c3 # c4 # r"
    using assms(2) by (metis list.exhaust)
  then show ?thesis
  proof cases
    case 1
    with assms(1) show ?thesis by simp
  next
    case 2
    with assms(1) show ?thesis by simp
  next
    case 3
    with assms(1) show ?thesis by simp
  next
    case 4
    with assms(1) show ?thesis by (cases r) simp_all
  qed
qed

lemma prefix_info_boundary:
  assumes "prefix '':2,'' (d @ '':2,'' @ t)" "d \<noteq> []"
  shows "prefix '':2,'' d"
proof -
  consider c1 where "d = [c1]" | c1 c2 where "d = [c1, c2]" 
    | c1 c2 c3 r where "d = c1 # c2 # c3 # r"
    using assms(2) by (metis list.exhaust)
  then show ?thesis
  proof cases
    case 1
    with assms(1) show ?thesis by simp
  next
    case 2
    with assms(1) show ?thesis by simp
  next
    case 3
    with assms(1) show ?thesis by simp
  qed
qed

lemma distinct_remdups_adj_sorted: "sorted xs \<Longrightarrow> distinct (remdups_adj xs)"
  by (induction xs rule: remdups_adj.induct) auto

lemma str_find_take_None:
  "pat \<noteq> [] \<Longrightarrow> str_find pat s = Some n \<Longrightarrow> str_find pat (take n s) = None"
proof (induction s arbitrary: n)
  case Nil
  then show ?case by simp
next
  case (Cons c cs)
  show ?case
  proof (cases "prefix pat (c # cs)")
    case True
    with Cons.prems show ?thesis by simp
  next
    case False
    with Cons.prems obtain k where k: "str_find pat cs = Some k" "n = Suc k"
      by auto
    have "\<not> prefix pat (c # take k cs)"
    proof
      assume "prefix pat (c # take k cs)"
      moreover have "prefix (c # take k cs) (c # cs)"
        by (simp add: take_is_prefix)
      ultimately have "prefix pat (c # cs)"
        by (rule prefix_order.trans)
      with False show False by simp
    qed
    with Cons.IH [OF Cons.prems(1) k(1)] k show ?thesis by simp
  qed
qed

lemma str_find_Some_le: "str_find pat s = Some n \<Longrightarrow> n \<le> length s"
  by (induction s arbitrary: n) (auto split: if_splits)

lemma str_find_info_append:
  "str_find '':2,'' s = None \<Longrightarrow> str_find '':2,'' (s @ '':2,'' @ t) = Some (length s)"
proof (induction s)
  case Nil
  show ?case by simp
next
  case (Cons c cs)
  from Cons.prems have np: "\<not> prefix '':2,'' (c # cs)" and n: "str_find '':2,'' cs = None"
    by (auto split: if_splits)
  from np have "\<not> prefix '':2,'' (c # cs @ '':2,'' @ t)"
    using prefix_info_boundary [of "c # cs" t] by auto
  with Cons.IH [OF n] show ?case by simp
qed

lemma str_find_skip:
  "c \<notin> set pat \<Longrightarrow> str_find pat s = None \<Longrightarrow>
   str_find pat (s @ c # t) = map_option (\<lambda>n. n + length s + 1) (str_find pat t)"
proof (induction s)
  case Nil
  then have "pat \<noteq> []" by auto
  with Nil have "\<not> prefix pat (c # t)"
    by (cases pat) auto
  then show ?case by (simp add: option.map_comp comp_def)
next
  case (Cons x xs)
  from Cons.prems have np: "\<not> prefix pat (x # xs)" and n: "str_find pat xs = None"
    by (auto split: if_splits)
  have "\<not> prefix pat ((x # xs) @ c # t)"
  proof
    assume "prefix pat ((x # xs) @ c # t)"
    then consider "prefix pat (x # xs)" | us where "pat = (x # xs) @ us" "prefix us (c # t)"
      unfolding prefix_append by blast
    then show False
    proof cases
      case 1
      with np show ?thesis by simp
    next
      case 2
      show ?thesis
      proof (cases us)
        case Nil
        with 2 np show ?thesis by simp
      next
        case (Cons u us')
        with 2 have "u = c" by simp
        with Cons 2 Cons.prems(1) show ?thesis by simp
      qed
    qed
  qed
  with Cons.IH [OF Cons.prems(1) n] show ?case
    by (simp add: option.map_comp comp_def)
qed

lemma str_find_missing_char: "c \<in> set pat \<Longrightarrow> c \<notin> set s \<Longrightarrow> str_find pat s = None"
proof (induction s)
  case Nil
  then show ?case by auto
next
  case (Cons x xs)
  have "\<not> prefix pat (x # xs)"
  proof
    assume "prefix pat (x # xs)"
    then have "set pat \<subseteq> set (x # xs)" by (rule set_mono_prefix)
    with Cons.prems show False by auto
  qed
  with Cons show ?case by simp
qed

lemma str_find_None_drop: "str_find pat s = None \<Longrightarrow> str_find pat (drop n s) = None"
proof (induction s arbitrary: n)
  case Nil
  then show ?case by simp
next
  case (Cons c cs)
  then show ?case by (cases n) (auto split: if_splits)
qed

lemma str_find_None_take: "pat \<noteq> [] \<Longrightarrow> str_find pat s = None \<Longrightarrow> str_find pat (take n s) = None"
proof (induction s arbitrary: n)
  case Nil
  then show ?case by simp
next
  case (Cons c cs)
  from Cons.prems have np: "\<not> prefix pat (c # cs)" and nn: "str_find pat cs = None"
    by (auto split: if_splits)
  show ?case
  proof (cases n)
    case 0
    with Cons.prems show ?thesis by simp
  next
    case (Suc k)
    have "\<not> prefix pat (c # take k cs)"
    proof
      assume "prefix pat (c # take k cs)"
      moreover have "prefix (c # take k cs) (c # cs)"
        by (simp add: take_is_prefix)
      ultimately have "prefix pat (c # cs)"
        by (rule prefix_order.trans)
      with np show False by simp
    qed
    with Cons.IH [OF Cons.prems(1) nn] Suc show ?thesis by simp
  qed
qed

lemma str_find_None_iff: "str_find pat s = None \<longleftrightarrow> \<not> (\<exists>a b. s = a @ pat @ b)"
proof (induction s)
  case Nil
  show ?case by auto
next
  case (Cons c cs)
  have "(\<exists>a b. c # cs = a @ pat @ b) \<longleftrightarrow> prefix pat (c # cs) \<or> (\<exists>a b. cs = a @ pat @ b)"
  proof
    assume "\<exists>a b. c # cs = a @ pat @ b"
    then obtain a b where ab: "c # cs = a @ pat @ b" by blast
    show "prefix pat (c # cs) \<or> (\<exists>a b. cs = a @ pat @ b)"
    proof (cases a)
      case Nil
      with ab show ?thesis by (auto simp: prefix_def)
    next
      case (Cons x a')
      with ab show ?thesis by auto
    qed
  next
    assume "prefix pat (c # cs) \<or> (\<exists>a b. cs = a @ pat @ b)"
    then show "\<exists>a b. c # cs = a @ pat @ b"
    proof
      assume "prefix pat (c # cs)"
      then obtain r where "c # cs = pat @ r" by (auto simp: prefix_def)
      then have "c # cs = [] @ pat @ r" by simp
      then show ?thesis by blast
    next
      assume "\<exists>a b. cs = a @ pat @ b"
      then obtain a b where "cs = a @ pat @ b" by blast
      then have "c # cs = (c # a) @ pat @ b" by simp
      then show ?thesis by blast
    qed
  qed
  with Cons.IH show ?case by auto
qed

lemma str_find_append_Some: "str_find pat s \<noteq> None \<Longrightarrow> str_find pat (s @ t) \<noteq> None"
proof -
  assume "str_find pat s \<noteq> None"
  then obtain a b where "s = a @ pat @ b" by (auto simp: str_find_None_iff)
  then have "s @ t = a @ pat @ (b @ t)" by simp
  then show ?thesis unfolding str_find_None_iff by blast
qed

lemma of_char_lt_256: "of_char c < (256 :: nat)"
proof -
  have "of_char c mod 256 = (of_char c :: nat)" by simp
  then show ?thesis by (metis mod_less_divisor zero_less_numeral)
qed

lemma inj_schar: "inj schar"
proof (rule injI)
  fix c d assume e: "schar c = schar d"
  have bc: "int (of_char c) < 256" and bd: "int (of_char d) < 256"
    using of_char_lt_256 [of c] of_char_lt_256 [of d] by linarith+
  have "int (of_char c) = int (of_char d)"
  proof (cases "of_char c < (128 :: nat)")
    case c: True
    show ?thesis
    proof (cases "of_char d < (128 :: nat)")
      case True
      with c e show ?thesis by (simp add: schar_def)
    next
      case False
      with c e have "int (of_char c) = int (of_char d) - 256" by (simp add: schar_def)
      with c bd show ?thesis by linarith
    qed
  next
    case c: False
    show ?thesis
    proof (cases "of_char d < (128 :: nat)")
      case True
      with c e have "int (of_char c) - 256 = int (of_char d)" by (simp add: schar_def)
      with True bc show ?thesis by linarith
    next
      case False
      with c e show ?thesis by (simp add: schar_def)
    qed
  qed
  then have "(of_char c :: nat) = of_char d" by simp
  then show "c = d" by simp
qed

lemma sorted_schar_remdups_adj:
  "sorted (map schar xs) \<Longrightarrow> sorted (map schar (remdups_adj xs))"
  by (metis inj_schar remdups_adj_map_injective sorted_remdups_adj)

lemma distinct_schar_remdups_adj:
  assumes "sorted (map schar xs)"
  shows "distinct (remdups_adj xs)"
proof -
  have "distinct (remdups_adj (map schar xs))"
    using assms by (rule distinct_remdups_adj_sorted)
  then have "distinct (map schar (remdups_adj xs))"
    by (simp add: remdups_adj_map_injective inj_schar)
  then show ?thesis by (simp add: distinct_map)
qed

lemma distinct_sort_unique: "distinct (sort_unique s)"
  unfolding sort_unique_def by (rule distinct_schar_remdups_adj) simp

lemma sorted_sort_unique: "sorted (map schar (sort_unique s))"
  unfolding sort_unique_def by (rule sorted_schar_remdups_adj) simp

lemma set_sort_unique: "set (sort_unique s) = set s"
  unfolding sort_unique_def by simp

lemma sort_unique_id:
  assumes "sorted (map schar s)" "distinct s" "set t = set s"
  shows "sort_unique t = s"
proof -
  have "map schar (sort_unique t) = map schar s"
  proof (rule sorted_distinct_set_unique)
    show "sorted (map schar (sort_unique t))" by (rule sorted_sort_unique)
    show "distinct (map schar (sort_unique t))"
      by (simp add: distinct_map distinct_sort_unique inj_on_subset [OF inj_schar])
    show "sorted (map schar s)" by fact
    show "distinct (map schar s)"
      using assms(2) by (simp add: distinct_map inj_on_subset [OF inj_schar])
    show "set (map schar (sort_unique t)) = set (map schar s)"
      using assms(3) by (simp add: set_sort_unique)
  qed
  then show ?thesis
    using inj_schar by (simp add: inj_map_eq_map)
qed

lemma sort_unique_cong: "set s = set t \<Longrightarrow> sort_unique s = sort_unique t"
  by (rule sort_unique_id) (simp_all add: sorted_sort_unique distinct_sort_unique set_sort_unique)

lemma sorted_ascii:
  "\<forall>c \<in> set xs. of_char c < (128 :: nat) \<Longrightarrow> sorted (map schar xs) = sorted xs"
  by (induction xs) (auto simp: schar_def less_eq_char_def)

lemma isupper_ascii: "isupper c \<Longrightarrow> of_char c < (128 :: nat)"
  by (simp add: isupper_def less_eq_char_def)

lemma canonical_schar: "canonical F \<Longrightarrow> sorted (map schar F)"
  by (simp add: canonical_def sorted_ascii isupper_ascii list_all_iff)

lemma str_find_new_sorted: "sorted (map schar s) \<Longrightarrow> str_find ''/new/'' s = None"
proof (induction s)
  case Nil
  show ?case by simp
next
  case (Cons c cs)
  then have "str_find ''/new/'' cs = None" by simp
  moreover have "\<not> prefix ''/new/'' (c # cs)"
  proof
    assume "prefix ''/new/'' (c # cs)"
    then obtain r where "c # cs = ''/new/'' @ r" by (auto simp: prefix_def)
    with Cons.prems have "schar CHR ''n'' \<le> schar CHR ''e''" by simp
    then show False by (simp add: schar_def)
  qed
  ultimately show ?case by simp
qed

lemma str_find_new_first:
  "str_find ''/new/'' (d @ ''/'') = None \<Longrightarrow> str_find ''/new/'' (d @ ''/new/'' @ t) = Some (length d)"
proof (induction d)
  case Nil
  show ?case by simp
next
  case (Cons c cs)
  from Cons.prems have np: "\<not> prefix ''/new/'' (c # cs @ ''/'')" and n: "str_find ''/new/'' (cs @ ''/'') = None"
    by (auto split: if_splits)
  from np have "\<not> prefix ''/new/'' (c # cs @ ''/new/'' @ t)"
    using prefix_new_boundary [of "c # cs" t] by auto
  with Cons.IH [OF n] show ?case by simp
qed

lemma str_find_char: "(str_find [c] s = None) = (c \<notin> set s)"
  by (induction s) auto

subsection \<open>Reading the flags\<close>

text \<open>
  C1. \<^verbatim>\<open>is_new()\<close> is true exactly when \<open>N\<close> is among the flags that \<^verbatim>\<open>get_flags()\<close>
  returns or \<open>S\<close> is not: a message with neither flag is new, and only a message with
  \<open>S\<close> and without \<open>N\<close> is not new.
\<close>

theorem is_new_iff:
  "is_new m = (CHR ''N'' \<in> set (get_flags m) \<or> CHR ''S'' \<notin> set (get_flags m))"
  by (auto simp add: is_new_def has_flag_def toupper_def str_find_char simp del: str_find.simps)

theorem is_new_iff_witness:
  "is_new (new_CMessage ''/m/cur/a'' True)
   \<and> \<not> is_new (new_CMessage ''/m/cur/a:2,S'' True)
   \<and> is_new (new_CMessage ''/m/cur/a:2,NS'' True)"
  using is_new_iff [of "new_CMessage ''/m/cur/a'' True"]
    is_new_iff [of "new_CMessage ''/m/cur/a:2,S'' True"]
    is_new_iff [of "new_CMessage ''/m/cur/a:2,NS'' True"]
  by (simp add: get_flags_def new_CMessage_def sort_unique_def schar_def)

lemma path_local: "\<not> m_imap m \<Longrightarrow> path w m = (w, m_path m)"
  by (simp add: path_def)

lemma info_prefix_None: "str_find '':2,'' (info_prefix p) = None"
  by (auto simp: info_prefix_def str_find_take_None split: option.splits)

lemma info_prefix_new: "str_find ''/new/'' p = None \<Longrightarrow> str_find ''/new/'' (info_prefix p) = None"
  by (auto simp: info_prefix_def str_find_None_take split: option.splits)

lemma str_find_new_info:
  assumes "str_find ''/new/'' pre = None" "sorted (map schar F)"
  shows "str_find ''/new/'' (pre @ '':2,'' @ F) = None"
proof -
  have "str_find ''/new/'' F = None"
    using assms(2) by (rule str_find_new_sorted)
  then have "str_find ''/new/'' ([] @ CHR '','' # F) = None"
    by (subst str_find_skip) simp_all
  then have "str_find ''/new/'' ([] @ CHR ''2'' # CHR '','' # F) = None"
    by (subst str_find_skip) simp_all
  then have "str_find ''/new/'' (pre @ CHR '':'' # CHR ''2'' # CHR '','' # F) = None"
    using assms(1) by (subst str_find_skip) simp_all
  then show ?thesis by simp
qed

lemma get_flags_local:
  assumes "\<not> m_imap m" "m_path m \<noteq> []"
  shows "get_flags m =
         sort_unique (info_suffix (m_path m)
                        @ (if str_find ''/new/'' (m_path m) \<noteq> None then ''N'' else []))"
  using assms by (simp add: get_flags_def info_suffix_def Let_def del: str_find.simps)

lemma get_flags_after_info:
  assumes "\<not> m_imap m" "m_path m = pre @ '':2,'' @ F" "str_find '':2,'' pre = None"
  shows "get_flags m = sort_unique (F @ (if str_find ''/new/'' (m_path m) \<noteq> None then ''N'' else []))"
proof -
  have "str_find '':2,'' (m_path m) = Some (length pre)"
    unfolding assms(2) using assms(3) by (rule str_find_info_append)
  moreover have "drop (length pre + 3) (m_path m) = F"
    unfolding assms(2) by simp
  moreover have "m_path m \<noteq> []"
    unfolding assms(2) by simp
  ultimately show ?thesis
    using assms(1) by (simp add: get_flags_def Let_def del: str_find.simps)
qed

subsection \<open>Writing the flags of a local message\<close>

lemma set_flags_path:
  assumes "\<not> m_imap m"
  shows "m_path (snd (set_flags w m F)) = info_prefix (m_path m) @ '':2,'' @ sort_unique F"
  using assms
  by (auto simp: set_flags_def path_local info_prefix_def Let_def simp del: str_find.simps
      split: option.splits)

lemma set_flags_rest:
  "snd (set_flags w m F) = m\<lparr>m_path := m_path (snd (set_flags w m F))\<rparr>"
  by (auto simp: set_flags_def Let_def simp del: str_find.simps split: option.splits prod.splits)

lemma set_flags_imap: "m_imap (snd (set_flags w m F)) = m_imap m"
  by (subst set_flags_rest) simp

lemma set_flags_world:
  assumes "\<not> m_imap m"
  shows "fst (set_flags w m F) =
         (if m_path (snd (set_flags w m F)) \<noteq> m_path m
          then snd (rename_file w (m_path m) (m_path (snd (set_flags w m F)))) else w)"
  using assms
  by (auto simp: set_flags_def path_local Let_def CFile_move_def
      simp del: str_find.simps split: option.splits if_splits)

lemma set_flags_unchanged:
  assumes "\<not> m_imap m" "m_path (snd (set_flags w m F)) = m_path m"
  shows "set_flags w m F = (w, m)"
  using assms
  by (auto simp: set_flags_def path_local Let_def CFile_move_def
      simp del: str_find.simps split: option.splits if_splits)

text \<open>
  C2 (as amended).  For a local message and a canonical flag string \<open>F\<close>:
  after \<^verbatim>\<open>set_flags(F)\<close> the path is the old path up to its first \<open>:2,\<close> (the whole
  path when it has none) followed by \<open>:2,\<close> and \<open>F\<close>.  \<^verbatim>\<open>get_flags()\<close> then returns
  exactly \<open>F\<close> when that part of the old path holds no \<open>/new/\<close> (in particular when
  the path holds none) or \<open>F\<close> holds \<open>N\<close>; when that part holds \<open>/new/\<close> it returns
  \<open>F\<close> with \<open>N\<close> added, which is canonical again.  A changed path is renamed on disk
  with a call whose result is not looked at: when the file exists and the system lets
  the call through, the file and its bytes are found under the new name only,
  otherwise nothing outside the message changes.  When the path already had that form
  nothing is done at all.
\<close>

theorem set_flags_roundtrip:
  assumes "\<not> m_imap m" and "canonical F"
  shows "m_path (snd (set_flags w m F)) = info_prefix (m_path m) @ '':2,'' @ F
       \<and> get_flags (snd (set_flags w m F)) =
           sort_unique (F @ (if str_find ''/new/'' (info_prefix (m_path m)) \<noteq> None
                             then ''N'' else []))
       \<and> (str_find ''/new/'' (info_prefix (m_path m)) = None \<or> CHR ''N'' \<in> set F \<longrightarrow>
            get_flags (snd (set_flags w m F)) = F)
       \<and> (str_find ''/new/'' (m_path m) = None \<longrightarrow> get_flags (snd (set_flags w m F)) = F)
       \<and> (str_find ''/new/'' (info_prefix (m_path m)) \<noteq> None \<longrightarrow>
            canonical (get_flags (snd (set_flags w m F)))
            \<and> set (get_flags (snd (set_flags w m F))) = insert CHR ''N'' (set F))
       \<and> (m_path (snd (set_flags w m F)) \<noteq> m_path m \<and> m_path m \<in> files w
          \<and> denied w (Rename (m_path m) (m_path (snd (set_flags w m F)))) = None \<longrightarrow>
            files (fst (set_flags w m F)) =
              insert (m_path (snd (set_flags w m F))) (files w - {m_path m})
            \<and> content (fst (set_flags w m F)) (m_path (snd (set_flags w m F)))
                = content w (m_path m))
       \<and> (m_path (snd (set_flags w m F)) \<noteq> m_path m
          \<and> \<not> (m_path m \<in> files w
                \<and> denied w (Rename (m_path m) (m_path (snd (set_flags w m F)))) = None) \<longrightarrow>
            fst (set_flags w m F) = w)
       \<and> (m_path (snd (set_flags w m F)) = m_path m \<longrightarrow> set_flags w m F = (w, m))"
proof -
  let ?m' = "snd (set_flags w m F)"
  let ?pre = "info_prefix (m_path m)"
  let ?N = "if str_find ''/new/'' ?pre \<noteq> None then ''N'' else []"
  from assms(2) have F: "sorted (map schar F)" "distinct F"
    by (simp_all add: canonical_schar) (simp add: canonical_def)
  then have su: "sort_unique F = F"
    by (simp add: sort_unique_id)
  have p: "m_path ?m' = ?pre @ '':2,'' @ F"
    using set_flags_path [OF assms(1), of w F] su by simp
  have im: "\<not> m_imap ?m'"
    using assms(1) by (simp add: set_flags_imap)
  have g0: "get_flags ?m' =
            sort_unique (F @ (if str_find ''/new/'' (m_path ?m') \<noteq> None then ''N'' else []))"
    using im p info_prefix_None by (rule get_flags_after_info)
  have nw: "(str_find ''/new/'' (m_path ?m') \<noteq> None) = (str_find ''/new/'' ?pre \<noteq> None)"
  proof
    assume a: "str_find ''/new/'' (m_path ?m') \<noteq> None"
    show "str_find ''/new/'' ?pre \<noteq> None"
    proof
      assume "str_find ''/new/'' ?pre = None"
      then have "str_find ''/new/'' (?pre @ '':2,'' @ F) = None"
        using F(1) by (rule str_find_new_info)
      with a p show False by simp
    qed
  next
    assume "str_find ''/new/'' ?pre \<noteq> None"
    then show "str_find ''/new/'' (m_path ?m') \<noteq> None"
      unfolding p by (rule str_find_append_Some)
  qed
  have g: "get_flags ?m' = sort_unique (F @ ?N)"
    using g0 unfolding nw .
  have gF: "get_flags ?m' = F" if "str_find ''/new/'' ?pre = None \<or> CHR ''N'' \<in> set F"
  proof -
    from that have "set (F @ ?N) = set F" by auto
    with F g show ?thesis by (simp add: sort_unique_id del: str_find.simps)
  qed
  have gF': "get_flags ?m' = F" if "str_find ''/new/'' (m_path m) = None"
    using that gF info_prefix_new by blast
  have gN: "canonical (get_flags ?m') \<and> set (get_flags ?m') = insert CHR ''N'' (set F)"
    if "str_find ''/new/'' ?pre \<noteq> None"
  proof -
    from that g have s: "set (get_flags ?m') = insert CHR ''N'' (set F)"
      by (simp add: set_sort_unique)
    have up: "\<forall>c \<in> set (get_flags ?m'). isupper c"
      using assms(2) unfolding s by (auto simp: canonical_def list_all_iff isupper_def)
    then have "\<forall>c \<in> set (get_flags ?m'). of_char c < (128 :: nat)"
      by (blast intro: isupper_ascii)
    then have "sorted (get_flags ?m')"
      using sorted_sort_unique [of "F @ ?N"] g by (simp add: sorted_ascii del: str_find.simps)
    moreover have "distinct (get_flags ?m')"
      unfolding g by (rule distinct_sort_unique)
    ultimately show ?thesis
      using up s by (simp add: canonical_def list_all_iff)
  qed
  have w: "fst (set_flags w m F) =
           (if m_path ?m' \<noteq> m_path m then snd (rename_file w (m_path m) (m_path ?m')) else w)"
    using assms(1) by (rule set_flags_world)
  have r1: "files (fst (set_flags w m F)) = insert (m_path ?m') (files w - {m_path m})
            \<and> content (fst (set_flags w m F)) (m_path ?m') = content w (m_path m)"
    if "m_path ?m' \<noteq> m_path m" "m_path m \<in> files w"
       "denied w (Rename (m_path m) (m_path ?m')) = None"
    using that by (subst (1 2) w) (simp add: rename_file_def)
  have r2: "fst (set_flags w m F) = w"
    if "m_path ?m' \<noteq> m_path m"
       "\<not> (m_path m \<in> files w \<and> denied w (Rename (m_path m) (m_path ?m')) = None)"
    using that by (subst w) (auto simp add: rename_file_def)
  have r3: "set_flags w m F = (w, m)" if "m_path ?m' = m_path m"
    using assms(1) that by (rule set_flags_unchanged)
  show ?thesis
    using p g gF gF' gN r1 r2 r3 by blast
qed

theorem set_flags_roundtrip_witness:
  "get_flags (snd (set_flags w0 (new_CMessage ''/m/cur/b:2,S'' True) ''FS'')) = ''FS''
   \<and> m_path (snd (set_flags w0 (new_CMessage ''/m/cur/b:2,S'' True) ''FS'')) = ''/m/cur/b:2,FS''
   \<and> files (fst (set_flags w0 (new_CMessage ''/m/cur/b:2,S'' True) ''FS''))
        = {''/m/new/a'', ''/m/cur/b:2,FS''}
   \<and> fst (set_flags w_nocur (new_CMessage ''/m/cur/b:2,S'' True) ''FS'') = w_nocur
   \<and> get_flags (snd (set_flags w0 (new_CMessage ''/m/new/a'' True) ''S'')) = ''NS''
   \<and> set_flags w0 (new_CMessage ''/m/cur/b:2,S'' True) ''S''
        = (w0, new_CMessage ''/m/cur/b:2,S'' True)"
proof -
  let ?a = "new_CMessage ''/m/new/a'' True"
  let ?b = "new_CMessage ''/m/cur/b:2,S'' True"
  have c: "canonical ''FS''" "canonical ''S''"
    by (simp_all add: canonical_def isupper_def less_eq_char_def)
  have l: "\<not> m_imap ?b" "\<not> m_imap ?a"
    by (simp_all add: new_CMessage_def)
  have ip: "info_prefix (m_path ?b) = ''/m/cur/b''" "info_prefix (m_path ?a) = ''/m/new/a''"
    by (simp_all add: info_prefix_def new_CMessage_def)
  have s: "sort_unique ''SN'' = ''NS''"
    by (simp add: sort_unique_def schar_def)
  note t1 = set_flags_roundtrip [OF l(1) c(1), of w0]
  note t2 = set_flags_roundtrip [OF l(1) c(1), of w_nocur]
  note t3 = set_flags_roundtrip [OF l(2) c(2), of w0]
  note t4 = set_flags_roundtrip [OF l(1) c(2), of w0]
  have p1: "m_path (snd (set_flags w0 ?b ''FS'')) = ''/m/cur/b:2,FS''"
    using t1 [THEN conjunct1] by (simp add: ip)
  have p2: "m_path (snd (set_flags w_nocur ?b ''FS'')) = ''/m/cur/b:2,FS''"
    using t2 [THEN conjunct1] by (simp add: ip)
  have p4: "m_path (snd (set_flags w0 ?b ''S'')) = m_path ?b"
    using t4 [THEN conjunct1] by (simp add: ip) (simp add: new_CMessage_def)
  have "get_flags (snd (set_flags w0 ?b ''FS'')) = ''FS''"
    using t1 [THEN conjunct2, THEN conjunct2, THEN conjunct2, THEN conjunct1]
    by (simp add: new_CMessage_def)
  moreover note p1
  moreover have "files (fst (set_flags w0 ?b ''FS'')) = {''/m/new/a'', ''/m/cur/b:2,FS''}"
    using t1 [THEN conjunct2, THEN conjunct2, THEN conjunct2, THEN conjunct2, THEN conjunct2,
        THEN conjunct1]
    unfolding p1 by (auto simp add: new_CMessage_def w0_def)
  moreover have "fst (set_flags w_nocur ?b ''FS'') = w_nocur"
    using t2 [THEN conjunct2, THEN conjunct2, THEN conjunct2, THEN conjunct2, THEN conjunct2,
        THEN conjunct2, THEN conjunct1]
    unfolding p2 by (simp add: new_CMessage_def w0_def w_nocur_def)
  moreover have "get_flags (snd (set_flags w0 ?a ''S'')) = ''NS''"
    using t3 [THEN conjunct2, THEN conjunct1] by (simp add: ip s)
  moreover have "set_flags w0 ?b ''S'' = (w0, ?b)"
    using t4 [THEN conjunct2, THEN conjunct2, THEN conjunct2, THEN conjunct2, THEN conjunct2,
        THEN conjunct2, THEN conjunct2] p4 by simp
  ultimately show ?thesis by simp
qed

text \<open>
  C2 as stated fails for a message in \<open>new/\<close>: \<^verbatim>\<open>get_flags()\<close> adds \<open>N\<close> to the
  canonical \<open>S\<close> that was set.
\<close>

theorem set_flags_roundtrip_counterexample:
  "\<not> m_imap (new_CMessage ''/m/new/a'' True) \<and> canonical ''S''
   \<and> m_path (snd (set_flags w0 (new_CMessage ''/m/new/a'' True) ''S'')) = ''/m/new/a:2,S''
   \<and> get_flags (snd (set_flags w0 (new_CMessage ''/m/new/a'' True) ''S'')) = ''NS''"
  by (simp add: canonical_def isupper_def less_eq_char_def new_CMessage_def w0_def
      set_flags_def path_def get_flags_def sort_unique_def schar_def CFile_move_def
      rename_file_def Let_def)

subsection \<open>The flags in memory of a remote message\<close>




lemma add_flag_imap: "m_imap (fst (snd (add_flag w m c))) = m_imap m"
  by (simp add: add_flag_def Let_def case_prod_beta set_flags_imap del: str_find.simps)

lemma remove_flag_imap: "m_imap (fst (snd (remove_flag w m c))) = m_imap m"
  by (simp add: remove_flag_def Let_def case_prod_beta set_flags_imap del: str_find.simps)












subsection \<open>The unread counter of the folder\<close>

lemma sint_dec:
  fixes c :: "32 word"
  assumes "- (2 ^ 31) < sint c"
  shows "sint (c - 1) = sint c - 1"
  using assms sint_lt [of c] 
  by (simp add: sint_word_ariths signed_take_bit_int_eq_self)

lemma mark_read_imap_unread:
  assumes "m_imap m"
  shows "md_unread (parent (fst (mark_read w m))) =
         (if sint (md_unread (parent w) - 1) < 0 then 0 else md_unread (parent w) - 1)"
  using assms 
  by (simp add: mark_read_def Let_def read_imap_output_def bump_mtime_def)

lemma mark_read_imap_keeps: "m_imap m \<Longrightarrow> m_imap (snd (mark_read w m))"
  by (simp add: mark_read_def Let_def)

lemma mark_read_repeat:
  assumes "m_imap m"
  shows "m_imap (snd ((case_prod mark_read ^^ n) (w, m)))
       \<and> (0 < n \<longrightarrow> 0 \<le> sint (md_unread (parent (fst ((case_prod mark_read ^^ n) (w, m))))))"
proof (induction n)
  case 0
  then show ?case using assms by simp
next
  case (Suc n)
  obtain w' m' where st: "(case_prod mark_read ^^ n) (w, m) = (w', m')"
    by (cases "(case_prod mark_read ^^ n) (w, m)")
  with Suc have im: "m_imap m'" by simp
  then show ?case
    using st mark_read_imap_unread [OF im, of w'] mark_read_imap_keeps [OF im, of w']
    by simp
qed

text \<open>
  C10.  \<^verbatim>\<open>mark_read()\<close> of a remote message sets the unread counter of the parent
  folder to the larger of zero and the previous value minus one (in 32-bit \<^verbatim>\<open>int\<close>
  arithmetic, which is the mathematical difference unless the counter was
  \<^verbatim>\<open>INT_MIN\<close>); the value stored is never negative, also after any number of
  further calls.
\<close>

theorem mark_read_remote_counter:
  assumes "m_imap m"
  shows "sint (md_unread (parent (fst (mark_read w m)))) = max 0 (sint (md_unread (parent w) - 1))
       \<and> (- (2 ^ 31) < sint (md_unread (parent w)) \<longrightarrow>
            sint (md_unread (parent (fst (mark_read w m)))) = max 0 (sint (md_unread (parent w)) - 1))
       \<and> 0 \<le> sint (md_unread (parent (fst (mark_read w m))))
       \<and> 0 \<le> sint (md_unread (parent (fst ((case_prod mark_read ^^ Suc n) (w, m)))))"
proof -
  have a: "sint (md_unread (parent (fst (mark_read w m)))) = max 0 (sint (md_unread (parent w) - 1))"
    using mark_read_imap_unread [OF assms, of w] by simp
  moreover have "sint (md_unread (parent (fst (mark_read w m)))) = max 0 (sint (md_unread (parent w)) - 1)"
    if "- (2 ^ 31) < sint (md_unread (parent w))"
    using a sint_dec [OF that] by simp
  moreover have "0 \<le> sint (md_unread (parent (fst ((case_prod mark_read ^^ Suc n) (w, m)))))"
    using mark_read_repeat [OF assms, of "Suc n" w] by blast
  ultimately show ?thesis by simp
qed

theorem mark_read_remote_counter_witness:
  "m_imap (new_CMessage ''cache/7'' False) \<and> md_unread (parent w0) = 1
   \<and> md_unread (parent (fst (mark_read w0 (new_CMessage ''cache/7'' False)))) = 0
   \<and> md_unread (parent (fst (mark_read (fst (mark_read w0 (new_CMessage ''cache/7'' False)))
        (snd (mark_read w0 (new_CMessage ''cache/7'' False)))))) = 0"
  using mark_read_remote_counter [of "new_CMessage ''cache/7'' False" w0 1]
  by (simp add: new_CMessage_def w0_def mark_read_def Let_def read_imap_output_def bump_mtime_def)


subsection \<open>Marking a local message in \<open>new/\<close> as read\<close>

lemma str_find_info_cur:
  assumes "str_find '':2,'' (dir @ ''/new/'' @ name) = None"
  shows "str_find '':2,'' (dir @ ''/cur/'' @ name) = None"
proof -
  have d: "str_find '':2,'' dir = None"
    using str_find_None_take [OF _ assms, of "length dir"] by simp
  have "str_find '':2,'' name = None"
    using str_find_None_drop [OF assms, of "length dir + 5"] by simp
  then have "str_find '':2,'' ([] @ CHR ''/'' # name) = None"
    by (subst str_find_skip) simp_all
  then have "str_find '':2,'' ([] @ CHR ''r'' # CHR ''/'' # name) = None"
    by (subst str_find_skip) simp_all
  then have "str_find '':2,'' ([] @ CHR ''u'' # CHR ''r'' # CHR ''/'' # name) = None"
    by (subst str_find_skip) simp_all
  then have "str_find '':2,'' ([] @ CHR ''c'' # CHR ''u'' # CHR ''r'' # CHR ''/'' # name) = None"
    by (subst str_find_skip) simp_all
  then have "str_find '':2,'' (dir @ CHR ''/'' # CHR ''c'' # CHR ''u'' # CHR ''r'' # CHR ''/'' # name) = None"
    using d by (subst str_find_skip) simp_all
  then show ?thesis by simp
qed

lemma str_find_new_cur:
  assumes "str_find ''/new/'' (dir @ ''/'') = None" "CHR ''/'' \<notin> set name"
  shows "str_find ''/new/'' (dir @ ''/cur/'' @ name) = None"
proof -
  have "str_find ''/new/'' name = None"
    using assms(2) by (intro str_find_missing_char [of "CHR ''/''"]) simp_all
  moreover have "\<not> prefix ''/new/'' (CHR ''/'' # name)"
  proof
    assume "prefix ''/new/'' (CHR ''/'' # name)"
    then show False using assms(2) by (auto simp: prefix_def)
  qed
  ultimately have "str_find ''/new/'' ([] @ CHR ''/'' # name) = None"
    by simp
  then have "str_find ''/new/'' ([] @ CHR ''r'' # CHR ''/'' # name) = None"
    by (subst str_find_skip) simp_all
  then have "str_find ''/new/'' ([] @ CHR ''u'' # CHR ''r'' # CHR ''/'' # name) = None"
    by (subst str_find_skip) simp_all
  then have "str_find ''/new/'' ((dir @ ''/'') @ CHR ''c'' # CHR ''u'' # CHR ''r'' # CHR ''/'' # name) = None"
    using assms(1) by (subst str_find_skip) simp_all
  then show ?thesis by simp
qed

text \<open>
  What \<^verbatim>\<open>mark_read()\<close> does to a local message at \<open>dir/new/name\<close>, in terms of
  \<open>n = dir/cur/name\<close>: nothing when the rename to \<open>n\<close> fails; otherwise the path
  becomes \<open>n\<close> and \<^verbatim>\<open>add_flag('S')\<close> is applied to it.
\<close>

lemma new_rename_fails:
  assumes "\<not> m_imap m" and "m_path m = dir @ ''/new/'' @ name"
    and "str_find ''/new/'' (dir @ ''/'') = None"
    and "\<not> (m_path m \<in> files w \<and> denied w (Rename (m_path m) (dir @ ''/cur/'' @ name)) = None)"
  shows "mark_read w m = (w, m)"
proof -
  have off: "str_find ''/new/'' (m_path m) = Some (length dir)"
    unfolding assms(2) using assms(3) by (rule str_find_new_first)
  have "rename_file w (m_path m) (dir @ ''/cur/'' @ name) = (False, w)"
    using assms(4) by (auto simp add: rename_file_def)
  then show ?thesis
    using assms(1) off by (simp add: mark_read_def path_def Let_def assms(2) del: str_find.simps)
qed

lemma new_rename_succeeds:
  assumes "\<not> m_imap m" and "m_path m = dir @ ''/new/'' @ name"
    and "str_find ''/new/'' (dir @ ''/'') = None"
    and "m_path m \<in> files w" and "denied w (Rename (m_path m) (dir @ ''/cur/'' @ name)) = None"
  shows "mark_read w m =
         (let (w2, m2, r) =
                add_flag (snd (rename_file w (m_path m) (dir @ ''/cur/'' @ name)))
                  (m\<lparr>m_path := dir @ ''/cur/'' @ name\<rparr>) CHR ''S''
          in (w2, m2))"
proof -
  have off: "str_find ''/new/'' (m_path m) = Some (length dir)"
    unfolding assms(2) using assms(3) by (rule str_find_new_first)
  have "fst (rename_file w (m_path m) (dir @ ''/cur/'' @ name))"
    using assms(4,5) by (simp add: rename_file_def)
  then show ?thesis
    using assms(1) off
    by (simp add: mark_read_def path_def Let_def assms(2) case_prod_beta del: str_find.simps)
qed

text \<open>
  C4 (as amended).  For a local message at \<open>dir/new/name\<close>, where \<open>name\<close> has no
  slash and \<open>dir/\<close> no \<open>/new/\<close>, write \<open>n\<close> for \<open>dir/cur/name\<close>.  When the
  rename to \<open>n\<close> fails (the file is missing, or the system refuses, as it does in a
  folder without \<open>cur/\<close>), \<^verbatim>\<open>mark_read()\<close> changes nothing.  When it succeeds and no
  \<open>N\<close> follows the first \<open>:2,\<close> of \<open>n\<close>: \<^verbatim>\<open>get_flags()\<close> afterwards returns the
  flags that follow \<open>:2,\<close> in \<open>n\<close> with \<open>S\<close> among them, so \<open>S\<close> is there and \<open>N\<close>
  is not; the path of the message is \<open>n\<close> if \<open>S\<close> was among those flags already, and
  otherwise \<open>n\<close> up to its first \<open>:2,\<close> followed by \<open>:2,\<close> and these flags; the file
  is under that path, unless the second rename, whose result is not looked at, is
  refused, in which case it is under \<open>n\<close>.  In particular, when the old path has no
  \<open>:2,\<close>, the path becomes \<open>dir/cur/name:2,S\<close> and \<^verbatim>\<open>get_flags()\<close> returns \<open>S\<close>.
\<close>

theorem mark_read_new:
  assumes "\<not> m_imap m" and "m_path m = dir @ ''/new/'' @ name"
    and "CHR ''/'' \<notin> set name" and "str_find ''/new/'' (dir @ ''/'') = None"
    and "n = dir @ ''/cur/'' @ name"
    and "dst = info_prefix n @ '':2,'' @ sort_unique (info_suffix n @ ''S'')"
  shows "(\<not> (m_path m \<in> files w \<and> denied w (Rename (m_path m) n) = None) \<longrightarrow>
            mark_read w m = (w, m))
       \<and> (m_path m \<in> files w \<and> denied w (Rename (m_path m) n) = None
          \<and> CHR ''N'' \<notin> set (info_suffix n) \<longrightarrow>
            get_flags (snd (mark_read w m)) = sort_unique (info_suffix n @ ''S'')
            \<and> CHR ''S'' \<in> set (get_flags (snd (mark_read w m)))
            \<and> CHR ''N'' \<notin> set (get_flags (snd (mark_read w m)))
            \<and> snd (mark_read w m) =
                m\<lparr>m_path := (if CHR ''S'' \<in> set (info_suffix n) then n else dst)\<rparr>
            \<and> files (fst (mark_read w m)) =
                (if CHR ''S'' \<in> set (info_suffix n) \<or> denied w (Rename n dst) \<noteq> None
                 then insert n (files w - {m_path m})
                 else insert dst (files w - {m_path m, n})))
       \<and> (m_path m \<in> files w \<and> denied w (Rename (m_path m) n) = None
          \<and> str_find '':2,'' (m_path m) = None \<longrightarrow>
            m_path (snd (mark_read w m)) = dir @ ''/cur/'' @ name @ '':2,S''
            \<and> get_flags (snd (mark_read w m)) = ''S''
            \<and> files (fst (mark_read w m)) =
                (if denied w (Rename n (n @ '':2,S'')) \<noteq> None
                 then insert n (files w - {m_path m})
                 else insert (n @ '':2,S'') (files w - {m_path m, n})))"
proof -
  let ?sfx = "info_suffix n"
  let ?F = "sort_unique (?sfx @ ''S'')"
  let ?m1 = "m\<lparr>m_path := n\<rparr>"
  let ?w1 = "snd (rename_file w (m_path m) n)"
  have nn: "str_find ''/new/'' n = None"
    unfolding assms(5) using assms(4,3) by (rule str_find_new_cur)
  have ne: "n \<noteq> []"
    by (simp add: assms(5))
  have l1: "\<not> m_imap ?m1"
    using assms(1) by simp
  have g1: "get_flags ?m1 = sort_unique ?sfx"
    using get_flags_local [OF l1] ne nn by simp
  have sF: "set ?F = insert CHR ''S'' (set ?sfx)"
    by (simp add: set_sort_unique)
  have gd: "get_flags (m\<lparr>m_path := dst\<rparr>) = ?F"
  proof -
    have "str_find ''/new/'' (info_prefix n) = None"
      using nn by (rule info_prefix_new)
    then have "str_find ''/new/'' (info_prefix n @ '':2,'' @ ?F) = None"
      using sorted_sort_unique by (rule str_find_new_info)
    moreover have "get_flags (m\<lparr>m_path := dst\<rparr>) =
          sort_unique (?F @ (if str_find ''/new/'' (m_path (m\<lparr>m_path := dst\<rparr>)) \<noteq> None
                             then ''N'' else []))"
      using assms(1) info_prefix_None [of n]
      by (intro get_flags_after_info [where pre = "info_prefix n"]) (simp_all add: assms(6))
    ultimately have "get_flags (m\<lparr>m_path := dst\<rparr>) = sort_unique ?F"
      by (simp add: assms(6) del: str_find.simps)
    also have "\<dots> = ?F"
      by (rule sort_unique_id) (simp_all add: sorted_sort_unique distinct_sort_unique)
    finally show ?thesis .
  qed
  have fail: "mark_read w m = (w, m)"
    if "\<not> (m_path m \<in> files w \<and> denied w (Rename (m_path m) n) = None)"
    using assms(1,2,4) that unfolding assms(5) by (rule new_rename_fails)
  have ok: "get_flags (snd (mark_read w m)) = ?F
            \<and> snd (mark_read w m) = m\<lparr>m_path := (if CHR ''S'' \<in> set ?sfx then n else dst)\<rparr>
            \<and> files (fst (mark_read w m)) =
                (if CHR ''S'' \<in> set ?sfx \<or> denied w (Rename n dst) \<noteq> None
                 then insert n (files w - {m_path m})
                 else insert dst (files w - {m_path m, n}))"
    if a: "m_path m \<in> files w" and b: "denied w (Rename (m_path m) n) = None"
  proof -
    have mr: "mark_read w m = (let (w2, m2, r) = add_flag ?w1 ?m1 CHR ''S'' in (w2, m2))"
      using assms(1,2,4) a b unfolding assms(5) by (rule new_rename_succeeds)
    have f1: "files ?w1 = insert n (files w - {m_path m})"
      using a b by (simp add: rename_file_def)
    have d1: "denied ?w1 = denied w"
      by (simp add: rename_file_def)
    show ?thesis
    proof (cases "CHR ''S'' \<in> set ?sfx")
      case True
      then have "str_find ''S'' (get_flags ?m1) \<noteq> None"
        by (simp add: g1 str_find_char set_sort_unique del: str_find.simps)
      then have "add_flag ?w1 ?m1 CHR ''S'' = (?w1, ?m1, False)"
        unfolding add_flag_def Let_def by (simp only: if_False)
      with mr have r: "mark_read w m = (?w1, ?m1)" by simp
      have "sort_unique ?sfx = ?F"
        using True by (intro sort_unique_cong) auto
      with r g1 f1 True show ?thesis by simp
    next
      case False
      then have "str_find ''S'' (get_flags ?m1) = None"
        by (simp add: g1 str_find_char set_sort_unique del: str_find.simps)
      then have "add_flag ?w1 ?m1 CHR ''S'' =
            (fst (set_flags ?w1 ?m1 (get_flags ?m1 @ ''S'')),
             snd (set_flags ?w1 ?m1 (get_flags ?m1 @ ''S'')), True)"
        unfolding add_flag_def Let_def by (simp only: case_prod_beta simp_thms if_True)
      then have af: "add_flag ?w1 ?m1 CHR ''S'' =
            (fst (set_flags ?w1 ?m1 (sort_unique ?sfx @ ''S'')),
             snd (set_flags ?w1 ?m1 (sort_unique ?sfx @ ''S'')), True)"
        unfolding g1 .
      have "sort_unique (sort_unique ?sfx @ ''S'') = ?F"
        by (intro sort_unique_cong) (simp add: set_sort_unique)
      then have pd: "m_path (snd (set_flags ?w1 ?m1 (sort_unique ?sfx @ ''S''))) = dst"
        using set_flags_path [OF l1, of ?w1 "sort_unique ?sfx @ ''S''"] by (simp add: assms(6))
      have m2: "snd (set_flags ?w1 ?m1 (sort_unique ?sfx @ ''S'')) = m\<lparr>m_path := dst\<rparr>"
        using set_flags_rest [of ?w1 ?m1 "sort_unique ?sfx @ ''S''"] unfolding pd by simp
      have dn: "dst \<noteq> n"
      proof
        assume "dst = n"
        with gd g1 have "sort_unique ?sfx = ?F" by simp
        then have "set (sort_unique ?sfx) = set ?F" by simp
        with False show False by (auto simp add: set_sort_unique)
      qed
      have w2: "fst (set_flags ?w1 ?m1 (sort_unique ?sfx @ ''S'')) = snd (rename_file ?w1 n dst)"
        using set_flags_world [OF l1, of ?w1 "sort_unique ?sfx @ ''S''"] dn unfolding pd by simp
      have f2: "files (snd (rename_file ?w1 n dst)) =
                (if denied w (Rename n dst) \<noteq> None then insert n (files w - {m_path m})
                 else insert dst (files w - {m_path m, n}))"
        using f1 d1 by (auto simp add: rename_file_def)
      from mr af have "mark_read w m = (snd (rename_file ?w1 n dst), m\<lparr>m_path := dst\<rparr>)"
        by (simp add: w2 m2)
      with gd f2 False show ?thesis by simp
    qed
  qed
  have flags: "CHR ''S'' \<in> set (get_flags (snd (mark_read w m)))
               \<and> CHR ''N'' \<notin> set (get_flags (snd (mark_read w m)))"
    if "m_path m \<in> files w" "denied w (Rename (m_path m) n) = None" "CHR ''N'' \<notin> set ?sfx"
    using ok [OF that(1,2), THEN conjunct1] that(3) by (simp add: sF)
  have plain: "m_path (snd (mark_read w m)) = dir @ ''/cur/'' @ name @ '':2,S''
            \<and> get_flags (snd (mark_read w m)) = ''S''
            \<and> files (fst (mark_read w m)) =
                (if denied w (Rename n (n @ '':2,S'')) \<noteq> None
                 then insert n (files w - {m_path m})
                 else insert (n @ '':2,S'') (files w - {m_path m, n}))"
    if a: "m_path m \<in> files w" and b: "denied w (Rename (m_path m) n) = None"
      and c: "str_find '':2,'' (m_path m) = None"
  proof -
    have "str_find '':2,'' n = None"
      using c unfolding assms(2,5) by (rule str_find_info_cur)
    then have s: "info_suffix n = []" and p: "info_prefix n = n"
      by (simp_all add: info_suffix_def info_prefix_def)
    have F: "sort_unique ''S'' = ''S''"
      by (simp add: sort_unique_def)
    have d: "dst = n @ '':2,S''"
      by (simp add: assms(6) s p F)
    have "get_flags (snd (mark_read w m)) = ''S''"
      using ok [OF a b, THEN conjunct1] by (simp add: s F)
    moreover have "snd (mark_read w m) = m\<lparr>m_path := dst\<rparr>"
      using ok [OF a b, THEN conjunct2, THEN conjunct1] by (simp add: s)
    then have "m_path (snd (mark_read w m)) = dir @ ''/cur/'' @ name @ '':2,S''"
      by (simp add: d assms(5))
    moreover have "files (fst (mark_read w m)) =
                (if denied w (Rename n dst) \<noteq> None then insert n (files w - {m_path m})
                 else insert dst (files w - {m_path m, n}))"
      using ok [OF a b, THEN conjunct2, THEN conjunct2] by (simp add: s)
    ultimately show ?thesis
      unfolding d by blast
  qed
  show ?thesis
    using fail ok flags plain by blast
qed

theorem mark_read_new_witness:
  "m_path (snd (mark_read w0 (new_CMessage ''/m/new/a'' True))) = ''/m/cur/a:2,S''
   \<and> files (fst (mark_read w0 (new_CMessage ''/m/new/a'' True)))
        = {''/m/cur/a:2,S'', ''/m/cur/b:2,S''}
   \<and> get_flags (snd (mark_read w0 (new_CMessage ''/m/new/a'' True))) = ''S''
   \<and> mark_read w_nocur (new_CMessage ''/m/new/a'' True)
        = (w_nocur, new_CMessage ''/m/new/a'' True)
   \<and> snd (mark_read (w0\<lparr>files := {''/m/new/c:2,T''}\<rparr>) (new_CMessage ''/m/new/c:2,T'' True))
        = new_CMessage ''/m/cur/c:2,ST'' True
   \<and> files (fst (mark_read (w0\<lparr>files := {''/m/new/c:2,T''}\<rparr>)
                   (new_CMessage ''/m/new/c:2,T'' True))) = {''/m/cur/c:2,ST''}
   \<and> get_flags (snd (mark_read (w0\<lparr>files := {''/m/new/c:2,T''}\<rparr>)
                       (new_CMessage ''/m/new/c:2,T'' True))) = ''ST''"
proof -
  let ?a = "new_CMessage ''/m/new/a'' True"
  let ?c = "new_CMessage ''/m/new/c:2,T'' True"
  let ?w = "w0\<lparr>files := {''/m/new/c:2,T''}\<rparr>"
  have a: "\<not> m_imap ?a" "m_path ?a = ''/m'' @ ''/new/'' @ ''a''" "CHR ''/'' \<notin> set ''a''"
    and c: "\<not> m_imap ?c" "m_path ?c = ''/m'' @ ''/new/'' @ ''c:2,T''" "CHR ''/'' \<notin> set ''c:2,T''"
    and d: "str_find ''/new/'' (''/m'' @ ''/'') = None"
    by (simp_all add: new_CMessage_def)
  have s: "sort_unique ''TS'' = ''ST''"
    by (simp add: sort_unique_def schar_def)
  have i: "info_suffix ''/m/cur/c:2,T'' = ''T''" "info_prefix ''/m/cur/c:2,T'' = ''/m/cur/c''"
    by (simp_all add: info_suffix_def info_prefix_def)
  have h1: "m_path ?a \<in> files w0
            \<and> denied w0 (Rename (m_path ?a) (''/m'' @ ''/cur/'' @ ''a'')) = None
            \<and> str_find '':2,'' (m_path ?a) = None"
    by (simp add: new_CMessage_def w0_def)
  have h2: "\<not> (m_path ?a \<in> files w_nocur
                \<and> denied w_nocur (Rename (m_path ?a) (''/m'' @ ''/cur/'' @ ''a'')) = None)"
    by (simp add: new_CMessage_def w0_def w_nocur_def)
  have h3: "m_path ?c \<in> files ?w
            \<and> denied ?w (Rename (m_path ?c) (''/m'' @ ''/cur/'' @ ''c:2,T'')) = None
            \<and> CHR ''N'' \<notin> set (info_suffix (''/m'' @ ''/cur/'' @ ''c:2,T''))"
    by (simp add: new_CMessage_def w0_def i)
  note t1 = mark_read_new [OF a d refl refl, of w0, THEN conjunct2, THEN conjunct2,
      rule_format, OF h1]
  note t2 = mark_read_new [OF a d refl refl, of w_nocur, THEN conjunct1, rule_format, OF h2]
  note t3 = mark_read_new [OF c d refl refl, of ?w, THEN conjunct2, THEN conjunct1,
      rule_format, OF h3]
  have "m_path (snd (mark_read w0 ?a)) = ''/m/cur/a:2,S''"
    using t1 [THEN conjunct1] by simp
  moreover have "files (fst (mark_read w0 ?a)) = {''/m/cur/a:2,S'', ''/m/cur/b:2,S''}"
    using t1 [THEN conjunct2, THEN conjunct2] by (auto simp add: new_CMessage_def w0_def)
  moreover have "get_flags (snd (mark_read w0 ?a)) = ''S''"
    using t1 [THEN conjunct2, THEN conjunct1] by simp
  moreover note t2
  moreover have "snd (mark_read ?w ?c) = new_CMessage ''/m/cur/c:2,ST'' True"
    using t3 [THEN conjunct2, THEN conjunct2, THEN conjunct2, THEN conjunct1]
    by (simp add: i s new_CMessage_def)
  moreover have "files (fst (mark_read ?w ?c)) = {''/m/cur/c:2,ST''}"
    using t3 [THEN conjunct2, THEN conjunct2, THEN conjunct2, THEN conjunct2]
    by (auto simp add: i s new_CMessage_def w0_def)
  moreover have "get_flags (snd (mark_read ?w ?c)) = ''ST''"
    using t3 [THEN conjunct1] by (simp add: i s)
  ultimately show ?thesis by simp
qed

text \<open>
  C4 as stated fails.  In a folder where the rename is refused \<^verbatim>\<open>mark_read()\<close> changes
  nothing, and the message stays new.  A name that has flags already gets \<open>S\<close> merged
  into them instead of \<open>:2,S\<close> appended.  And a message in \<open>new/\<close> to which
  \<^verbatim>\<open>add_flag('T')\<close> was applied is named \<open>a:2,NT\<close>; \<^verbatim>\<open>mark_read()\<close> renames it to
  \<open>cur/a:2,NST\<close>, so \<open>N\<close> stays.
\<close>

theorem mark_read_new_counterexample:
  "mark_read w_nocur (new_CMessage ''/m/new/a'' True) = (w_nocur, new_CMessage ''/m/new/a'' True)
   \<and> ''/m/new/a'' \<in> files w_nocur
   \<and> get_flags (new_CMessage ''/m/new/a'' True) = ''N''
   \<and> m_path (snd (mark_read (w0\<lparr>files := {''/m/new/c:2,T''}\<rparr>)
                    (new_CMessage ''/m/new/c:2,T'' True))) = ''/m/cur/c:2,ST''
   \<and> m_path (fst (snd (add_flag w0 (new_CMessage ''/m/new/a'' True) CHR ''T''))) = ''/m/new/a:2,NT''
   \<and> ''/m/new/a:2,NT'' \<in> files (fst (add_flag w0 (new_CMessage ''/m/new/a'' True) CHR ''T''))
   \<and> m_path (snd (mark_read (fst (add_flag w0 (new_CMessage ''/m/new/a'' True) CHR ''T''))
               (new_CMessage ''/m/new/a:2,NT'' True))) = ''/m/cur/a:2,NST''
   \<and> get_flags (snd (mark_read (fst (add_flag w0 (new_CMessage ''/m/new/a'' True) CHR ''T''))
               (new_CMessage ''/m/new/a:2,NT'' True))) = ''NST''"
  by (simp add: new_CMessage_def w0_def w_nocur_def add_flag_def mark_read_def set_flags_def
      path_def get_flags_def sort_unique_def schar_def CFile_move_def rename_file_def Let_def)


section \<open>Parsing and caches: what is proved\<close>

lemma past_newlines_le: "past_newlines k s \<le> length s"
  by (induction k s rule: past_newlines.induct) auto

lemma past_newlines_few:
  "count_list s (CHR 0x0A) < k \<Longrightarrow> past_newlines k s = length s"
  by (induction k s rule: past_newlines.induct) (auto split: if_splits)

lemma past_newlines_enough:
  "0 < k \<Longrightarrow> k \<le> count_list s (CHR 0x0A) \<Longrightarrow>
   count_list (take (past_newlines k s) s) (CHR 0x0A) = k
   \<and> last (take (past_newlines k s) s) = CHR 0x0A"
proof (induction k s rule: past_newlines.induct)
  case (1 s)
  then show ?case by simp
next
  case (2 k)
  then show ?case by simp
next
  case (3 k c cs)
  show ?case
  proof (cases "c = CHR 0x0A")
    case True
    show ?thesis
    proof (cases k)
      case 0
      with True show ?thesis by simp
    next
      case (Suc j)
      with True 3 have "count_list (take (past_newlines k cs) cs) (CHR 0x0A) = k
                      \<and> last (take (past_newlines k cs) cs) = CHR 0x0A"
        by simp
      moreover from this Suc have "take (past_newlines k cs) cs \<noteq> []"
        by (metis count_list.simps(1) nat.distinct(1))
      ultimately show ?thesis using True by simp
    qed
  next
    case False
    with 3 have ih: "count_list (take (past_newlines (Suc k) cs) cs) (CHR 0x0A) = Suc k
                      \<and> last (take (past_newlines (Suc k) cs) cs) = CHR 0x0A"
      by simp
    then have "take (past_newlines (Suc k) cs) cs \<noteq> []"
      by (metis count_list.simps(1) nat.distinct(1))
    with ih False show ?thesis by simp
  qed
qed

lemma skip_lines_pos:
  "fd_pos (snd (snd (skip_lines newline count buf fd))) =
     fd_pos fd + past_newlines (nat newline) (take (nat count) (drop (fd_pos fd) (fd_bytes fd)))
   \<and> fd_bytes (snd (snd (skip_lines newline count buf fd))) = fd_bytes fd"
proof (induction newline count buf fd rule: skip_lines.induct)
  case (1 newline count buf fd)
  show ?case
  proof (cases "newline > 0 \<and> count > 0")
    case False
    then have "nat newline = 0 \<or> nat count = 0" by auto
    moreover have "past_newlines k [] = 0" for k by (cases k) simp_all
    ultimately show ?thesis using False
      by (subst (1 2) skip_lines.simps) auto
  next
    case True
    then obtain k j where k: "nat newline = Suc k" and j: "nat count = Suc j"
      by (metis Suc_pred' zero_less_nat_eq)
    have pn: "past_newlines k [] = 0" for k by (cases k) simp_all
    show ?thesis
    proof (cases "fd_pos fd < length (fd_bytes fd)")
      case eof: False
      then have r: "read1 fd buf = (0, buf, fd)" by (simp add: read1_def)
      let ?nl = "if buf = CHR 0x0A then newline - 1 else newline"
      have "skip_lines newline count buf fd = skip_lines ?nl (count - 1) buf fd"
        using True r by (subst skip_lines.simps) simp
      moreover from "1.IH" [OF True r [symmetric] refl refl refl]
      have "fd_pos (snd (snd (skip_lines ?nl (count - 1) buf fd))) =
              fd_pos fd + past_newlines (nat ?nl) (take (nat (count - 1)) (drop (fd_pos fd) (fd_bytes fd)))
            \<and> fd_bytes (snd (snd (skip_lines ?nl (count - 1) buf fd))) = fd_bytes fd"
        by simp
      ultimately show ?thesis using eof by (simp add: pn)
    next
      case more: True
      let ?c = "fd_bytes fd ! fd_pos fd"
      let ?fd1 = "fd\<lparr>fd_pos := fd_pos fd + 1\<rparr>"
      let ?nl = "if ?c = CHR 0x0A then newline - 1 else newline"
      have r: "read1 fd buf = (1, ?c, ?fd1)" using more by (simp add: read1_def)
      have step: "skip_lines newline count buf fd = skip_lines ?nl (count - 1) ?c ?fd1"
        using True r by (subst skip_lines.simps) simp
      from "1.IH" [OF True r [symmetric] refl refl refl]
      have ih: "fd_pos (snd (snd (skip_lines ?nl (count - 1) ?c ?fd1))) =
              fd_pos ?fd1 + past_newlines (nat ?nl) (take (nat (count - 1)) (drop (fd_pos ?fd1) (fd_bytes ?fd1)))
            \<and> fd_bytes (snd (snd (skip_lines ?nl (count - 1) ?c ?fd1))) = fd_bytes ?fd1"
        by simp
      have d: "drop (fd_pos fd) (fd_bytes fd) = ?c # drop (Suc (fd_pos fd)) (fd_bytes fd)"
        using more by (simp add: Cons_nth_drop_Suc)
      have nl: "nat ?nl = (if ?c = CHR 0x0A then k else Suc k)"
        using k by auto
      have cj: "nat (count - 1) = j" using j by auto
      show ?thesis
        unfolding step using ih by (simp add: d k j nl cj)
    qed
  qed
qed

lemma skip_lines_count:
  "0 \<le> count \<Longrightarrow> 0 \<le> fst (snd (skip_lines newline count buf fd))
     \<and> fst (snd (skip_lines newline count buf fd)) \<le> count"
proof (induction newline count buf fd rule: skip_lines.induct)
  case (1 newline count buf fd)
  show ?case
  proof (cases "newline > 0 \<and> count > 0")
    case False
    then show ?thesis using "1.prems" by (subst (1 2) skip_lines.simps) auto
  next
    case True
    obtain r b f where r: "read1 fd buf = (r, b, f)" by (cases "read1 fd buf")
    let ?nl = "if b = CHR 0x0A then newline - 1 else newline"
    have "skip_lines newline count buf fd = skip_lines ?nl (count - 1) b f"
      using True r by (subst skip_lines.simps) simp
    moreover from "1.IH" [OF True r [symmetric] refl refl refl] True
    have "0 \<le> fst (snd (skip_lines ?nl (count - 1) b f))
        \<and> fst (snd (skip_lines ?nl (count - 1) b f)) \<le> count - 1"
      by simp
    ultimately show ?thesis by simp
  qed
qed

text \<open>
  C8.  When the first parse fails, the scan restarts at offset zero, reads one byte at
  a time and stops after the second newline or after 1024 reads, whichever comes first
  (the loop is a total function: \<open>count\<close> is what is left of the 1024 reads).  It
  consumes the shortest prefix of the first 1024 bytes that holds two newlines, which
  then ends in the second newline, or all of these bytes when they hold fewer than two.
  The parse is retried once, on the bytes from that offset on.
\<close>
theorem parse_recovery_scan:
  "(let (newline, count, fd1) = skip_lines 2 1024 (CHR 0x00) (lseek_set fd 0);
        bs = fd_bytes fd
    in 0 \<le> count \<and> count \<le> 1024 \<and> fd_bytes fd1 = bs
       \<and> fd_pos fd1 = past_newlines 2 (take 1024 bs)
       \<and> fd_pos fd1 \<le> 1024 \<and> fd_pos fd1 \<le> length bs
       \<and> (2 \<le> count_list (take 1024 bs) (CHR 0x0A) \<longrightarrow>
             count_list (take (fd_pos fd1) bs) (CHR 0x0A) = 2
             \<and> last (take (fd_pos fd1) bs) = CHR 0x0A)
       \<and> (count_list (take 1024 bs) (CHR 0x0A) < 2 \<longrightarrow> fd_pos fd1 = min 1024 (length bs))
       \<and> parse_stream construct fd =
           (case construct (drop (fd_pos fd) bs) of
              Some message \<Rightarrow> Some message
            | None \<Rightarrow> construct (drop (fd_pos fd1) bs)))"
proof -
  obtain newline count fd1
    where r: "skip_lines 2 1024 (CHR 0x00) (lseek_set fd 0) = (newline, count, fd1)"
    by (cases "skip_lines 2 1024 (CHR 0x00) (lseek_set fd 0)")
  let ?bs = "fd_bytes fd"
  let ?w = "take 1024 ?bs"
  have c: "0 \<le> count \<and> count \<le> 1024"
    using skip_lines_count [of 1024 2 "CHR 0x00" "lseek_set fd 0"] r by simp
  have "fd_pos fd1 = fd_pos (lseek_set fd 0)
          + past_newlines (nat 2) (take (nat 1024) (drop (fd_pos (lseek_set fd 0)) (fd_bytes (lseek_set fd 0))))
        \<and> fd_bytes fd1 = fd_bytes (lseek_set fd 0)"
    using skip_lines_pos [of 2 1024 "CHR 0x00" "lseek_set fd 0"] r by simp
  then have p: "fd_pos fd1 = past_newlines 2 ?w" and b: "fd_bytes fd1 = ?bs"
    by (simp_all add: lseek_set_def numeral_2_eq_2)
  have le: "fd_pos fd1 \<le> length ?w"
    unfolding p by (rule past_newlines_le)
  then have le1: "fd_pos fd1 \<le> 1024" and le2: "fd_pos fd1 \<le> length ?bs"
    by simp_all
  have tk: "take (fd_pos fd1) ?w = take (fd_pos fd1) ?bs"
    using le1 by (simp add: min_def)
  have two: "count_list (take (fd_pos fd1) ?bs) (CHR 0x0A) = 2
             \<and> last (take (fd_pos fd1) ?bs) = CHR 0x0A"
    if "2 \<le> count_list ?w (CHR 0x0A)"
    using past_newlines_enough [of 2 ?w] that tk unfolding p [symmetric] by simp
  have few: "fd_pos fd1 = min 1024 (length ?bs)" if "count_list ?w (CHR 0x0A) < 2"
    using past_newlines_few [OF that] p by (simp add: min.commute)
  have ps: "parse_stream construct fd =
           (case construct (drop (fd_pos fd) ?bs) of
              Some message \<Rightarrow> Some message
            | None \<Rightarrow> construct (drop (fd_pos fd1) ?bs))"
    using r b by (simp add: parse_stream_def split: option.splits)
  show ?thesis
    unfolding r using c p b le1 le2 two few ps by (simp add: Let_def)
qed

theorem parse_recovery_scan_witness:
  "skip_lines 2 1024 (CHR 0x00) (lseek_set ex_fd 0) = (0, 1011, ex_fd\<lparr>fd_pos := 13\<rparr>)
   \<and> count_list (take 1024 (fd_bytes ex_fd)) (CHR 0x0A) = 2
   \<and> ex_construct (fd_bytes ex_fd) = None
   \<and> parse_stream ex_construct ex_fd = Some \<lparr>g_headers = [(''Subject'', ''hi'')], g_part = None\<rparr>"
  using parse_recovery_scan [of ex_fd ex_construct]
  by (simp add: skip_lines.simps read1_def lseek_set_def ex_fd_def ex_construct_def Let_def
      parse_stream_def numeral_2_eq_2)

subsection \<open>The caches and \<^verbatim>\<open>add_attachments\<close>\<close>










section \<open>The threader: what is proved\<close>


text \<open>
  C7 (the code fails here).  With \<open>promote_unread\<close> set, sorting a single root that
  holds a new message does not return the roots: the loop reaches
  \<^verbatim>\<open>table.remove(i)\<close>, whose argument is a number and not the table, and Lua raises an
  error.  \<open>table_sort\<close> is only asked to leave lists of at most one element as they are.
\<close>

theorem sort_promote_unread_error:
  assumes "\<And>f. table_sort f [] = Inr []" and "\<And>f. table_sort f [r] = Inr [r]"
    and "c_message (cell h r) = Some m" and "is_new m" and "c_children (cell h r) = []"
  shows "Threader_sort table_sort h [r] cmp_func True = Some (Inl BadArgument)"
proof -
  let ?h1 = "set_children h r []"
  have cs: "Container_sort table_sort cmp_func h r = Some (Inr ?h1)"
    by (subst Container_sort.simps) (simp add: assms rbind_def)
  have se: "sort_each (Container_sort table_sort cmp_func) h [r] = Some (Inr ?h1)"
    by (simp add: cs rbind_def)
  have hu: "has_unread ?h1 r = Some True"
    by (subst has_unread.simps) (simp add: assms set_children_def)
  have pl: "promote_loop ?h1 [r] (Suc 0) = Some (Inl BadArgument)"
    by (simp add: hu)
  show ?thesis
    unfolding Threader_sort_def se by (simp add: assms rbind_def pl del: promote_loop.simps)
qed

theorem sort_promote_unread_error_witness:
  "is_new (new_CMessage ''/m/new/a'' True)
   \<and> Threader_sort (\<lambda>f xs. Inr xs) (fst unread_root) [snd unread_root] (\<lambda>a b. False) True
       = Some (Inl BadArgument)"
proof -
  have n: "is_new (new_CMessage ''/m/new/a'' True)"
    by (simp add: is_new_def has_flag_def get_flags_def new_CMessage_def sort_unique_def schar_def
        toupper_def)
  have m: "c_message (cell (fst unread_root) (snd unread_root)) = Some (new_CMessage ''/m/new/a'' True)"
    and c: "c_children (cell (fst unread_root) (snd unread_root)) = []"
    by (simp_all add: unread_root_def Container_new_def empty_heap_def)
  from sort_promote_unread_error [of "\<lambda>f xs. Inr xs", OF refl refl m n c] n show ?thesis
    by simp
qed

text \<open>
  In general the loop either leaves the roots as they are, when no root has an unread
  message, or stops with that error: it never moves a root.
\<close>

lemma promote_loop_result:
  assumes "n \<le> length roots" and "\<And>i. i < n \<Longrightarrow> has_unread h (roots ! i) = Some (u i)"
  shows "promote_loop h roots n = Some (if \<exists>i<n. u i then Inl BadArgument else Inr roots)"
  using assms
proof (induction n)
  case 0
  show ?case by simp
next
  case (Suc n)
  from Suc.prems have ih: "promote_loop h roots n = Some (if \<exists>i<n. u i then Inl BadArgument else Inr roots)"
    by (intro Suc.IH) simp_all
  from Suc.prems have un: "has_unread h (roots ! n) = Some (u n)" and lt: "n < length roots"
    by simp_all
  show ?case
  proof (cases "u n")
    case True
    then have "\<exists>i<Suc n. u i" by blast
    with True un lt show ?thesis by simp
  next
    case False
    then have "(\<exists>i<Suc n. u i) = (\<exists>i<n. u i)"
      by (auto simp: less_Suc_eq)
    with False un lt ih show ?thesis by simp
  qed
qed

lemmas thread_steps =
  thread_def thread_message_def initial_state_def empty_heap_def
  Container_new_def add_child_def remove_child_def set_parent_def set_children_def
  set_message_def set_subject_def table_delete_def transfer_children_def
  find_roots_def prune_empty.simps has_descandent.simps group_by_subject_def
  find_subject_def get_normalized_subject_def is_reply_def rbind_def Let_def forest_view_def

lemma any_child_Some:
  assumes "\<And>x. x \<in> set xs \<Longrightarrow> f x = Some (P x)"
  shows "any_child f xs = Some (\<exists>x\<in>set xs. P x)"
  using assms by (induction xs) auto

lemma has_descandent_total:
  assumes "wf (child_rel h)"
  shows "has_descandent h self cont = Some ((cont, self) \<in> (child_rel h)\<^sup>*)"
  using assms
proof (induction self rule: wf_induct_rule)
  case (less self)
  have ih: "has_descandent h y cont = Some ((cont, y) \<in> (child_rel h)\<^sup>*)"
    if "y \<in> set (c_children (cell h self))" for y
    using less that by (simp add: child_rel_def)
  have step: "((cont, self) \<in> (child_rel h)\<^sup>*) =
              (cont = self \<or> (\<exists>y\<in>set (c_children (cell h self)). (cont, y) \<in> (child_rel h)\<^sup>*))"
  proof
    assume "(cont, self) \<in> (child_rel h)\<^sup>*"
    then show "cont = self \<or> (\<exists>y\<in>set (c_children (cell h self)). (cont, y) \<in> (child_rel h)\<^sup>*)"
      by (cases rule: rtrancl.cases) (auto simp: child_rel_def)
  next
    assume "cont = self \<or> (\<exists>y\<in>set (c_children (cell h self)). (cont, y) \<in> (child_rel h)\<^sup>*)"
    then show "(cont, self) \<in> (child_rel h)\<^sup>*"
    proof
      assume "cont = self"
      then show ?thesis by simp
    next
      assume "\<exists>y\<in>set (c_children (cell h self)). (cont, y) \<in> (child_rel h)\<^sup>*"
      then obtain y where "y \<in> set (c_children (cell h self))" "(cont, y) \<in> (child_rel h)\<^sup>*"
        by blast
      moreover from this have "(y, self) \<in> child_rel h" by (simp add: child_rel_def)
      ultimately show ?thesis by (rule_tac rtrancl_into_rtrancl)
    qed
  qed
  show ?case
  proof (cases "self = cont")
    case True
    then show ?thesis by (subst has_descandent.simps) simp
  next
    case False
    have "any_child (\<lambda>child. has_descandent h child cont) (c_children (cell h self)) =
          Some (\<exists>y\<in>set (c_children (cell h self)). (cont, y) \<in> (child_rel h)\<^sup>*)"
      by (rule any_child_Some) (rule ih)
    with False step show ?thesis
      by (subst has_descandent.simps) auto
  qed
qed

lemma add_child_parent:
  "c_parent (cell (add_child h p c) x) = (if x = c then Some p else c_parent (cell h x))"
  by (auto simp: add_child_def remove_child_def set_parent_def set_children_def Let_def
      split: option.splits)

lemma add_child_message: "c_message (cell (add_child h p c) x) = c_message (cell h x)"
  by (auto simp: add_child_def remove_child_def set_parent_def set_children_def Let_def
      split: option.splits)

lemma add_child_top: "top (add_child h p c) = top h"
  by (auto simp: add_child_def remove_child_def set_parent_def set_children_def Let_def
      split: option.splits)

lemma add_child_children:
  "c_children (cell (add_child h p c) q) =
     (if q = p then
        (if c_parent (cell h c) = Some p then remove1 c (c_children (cell h p))
         else c_children (cell h p)) @ [c]
      else if c_parent (cell h c) = Some q then remove1 c (c_children (cell h q))
      else c_children (cell h q))"
  by (auto simp: add_child_def remove_child_def set_parent_def set_children_def Let_def
      table_delete_def split: option.splits)

lemma child_rel_add_child: "child_rel (add_child h p c) \<subseteq> insert (c, p) (child_rel h)"
  by (auto simp: child_rel_def add_child_children dest: notin_set_remove1 split: if_splits)

lemma forest_add_child:
  assumes f: "forest h" and nd: "(p, c) \<notin> (child_rel h)\<^sup>*" and c: "c < top h"
  shows "forest (add_child h p c)"
proof -
  from f have w: "wf (child_rel h)"
    and par: "\<And>q x. x \<in> set (c_children (cell h q)) \<Longrightarrow> c_parent (cell h x) = Some q"
    and dis: "\<And>q. distinct (c_children (cell h q))"
    and bnd: "\<And>q x. x \<in> set (c_children (cell h q)) \<Longrightarrow> x < top h"
    by (auto simp: forest_def)
  have "wf (insert (c, p) (child_rel h))"
    using w nd by simp
  then have 1: "wf (child_rel (add_child h p c))"
    by (rule wf_subset) (rule child_rel_add_child)
  have sub: "x \<in> set (c_children (cell h q)) \<or> (x = c \<and> q = p)"
    if "x \<in> set (c_children (cell (add_child h p c) q))" for q x
    using that
    by (auto simp: add_child_children dest!: set_remove1_subset [THEN subsetD] split: if_splits)
  have cq: "q = p" if "c \<in> set (c_children (cell (add_child h p c) q))" for q
  proof (rule ccontr)
    assume "q \<noteq> p"
    with that have m: "c \<in> set (if c_parent (cell h c) = Some q then remove1 c (c_children (cell h q))
                       else c_children (cell h q))"
      by (simp add: add_child_children)
    show False
    proof (cases "c_parent (cell h c) = Some q")
      case True
      with m dis [of q] show False by simp
    next
      case False
      with m par [of c q] show False by simp
    qed
  qed
  have 2: "c_parent (cell (add_child h p c) x) = Some q"
    if "x \<in> set (c_children (cell (add_child h p c) q))" for q x
  proof (cases "x = c")
    case True
    with that have "q = p" by (intro cq) simp
    with True show ?thesis by (simp add: add_child_parent)
  next
    case False
    with sub [OF that] par show ?thesis by (simp add: add_child_parent)
  qed
  have 3: "distinct (c_children (cell (add_child h p c) q))" for q
  proof (cases "q = p")
    case False
    then show ?thesis using dis by (simp add: add_child_children)
  next
    case True
    show ?thesis
    proof (cases "c_parent (cell h c) = Some p")
      case yes: True
      then show ?thesis using True dis [of p] by (simp add: add_child_children)
    next
      case no: False
      then have "c \<notin> set (c_children (cell h p))" using par by auto
      then show ?thesis using True no dis by (simp add: add_child_children)
    qed
  qed
  have 4: "x < top (add_child h p c)" if "x \<in> set (c_children (cell (add_child h p c) q))" for q x
    using sub [OF that] bnd c by (auto simp: add_child_top)
  from 1 2 3 4 show ?thesis
    unfolding forest_def by blast
qed

lemma forest_Container_new:
  assumes "forest h"
  shows "forest (fst (Container_new h msg))"
proof -
  let ?h = "fst (Container_new h msg)"
  from assms have w: "wf (child_rel h)"
    and par: "\<And>q x. x \<in> set (c_children (cell h q)) \<Longrightarrow> c_parent (cell h x) = Some q"
    and dis: "\<And>q. distinct (c_children (cell h q))"
    and bnd: "\<And>q x. x \<in> set (c_children (cell h q)) \<Longrightarrow> x < top h"
    by (auto simp: forest_def)
  have ch: "c_children (cell ?h q) = (if q = top h then [] else c_children (cell h q))" for q
    by (simp add: Container_new_def)
  have pa: "c_parent (cell ?h q) = (if q = top h then None else c_parent (cell h q))" for q
    by (simp add: Container_new_def)
  have tp: "top ?h = Suc (top h)"
    by (simp add: Container_new_def)
  have "child_rel ?h \<subseteq> child_rel h"
    by (auto simp: child_rel_def ch split: if_splits)
  with w have 1: "wf (child_rel ?h)" by (rule wf_subset)
  have 2: "c_parent (cell ?h x) = Some q" if "x \<in> set (c_children (cell ?h q))" for q x
  proof -
    from that have x: "x \<in> set (c_children (cell h q))" by (simp add: ch split: if_splits)
    then have "x \<noteq> top h" using bnd by fastforce
    with x par show ?thesis by (simp add: pa)
  qed
  have 3: "distinct (c_children (cell ?h q))" for q
    using dis by (simp add: ch)
  have 4: "x < top ?h" if "x \<in> set (c_children (cell ?h q))" for q x
  proof -
    from that have "x \<in> set (c_children (cell h q))" by (simp add: ch split: if_splits)
    then show ?thesis using bnd by (fastforce simp: tp)
  qed
  from 1 2 3 4 show ?thesis unfolding forest_def by blast
qed

lemma set_message_fields:
  "c_children (cell (set_message h a m) q) = c_children (cell h q)"
  "c_parent (cell (set_message h a m) q) = c_parent (cell h q)"
  "top (set_message h a m) = top h"
  "c_message (cell (set_message h a m) q) = (if q = a then m else c_message (cell h q))"
  by (simp_all add: set_message_def)

lemma forest_set_message: "forest h \<Longrightarrow> forest (set_message h a m)"
  by (simp add: forest_def child_rel_def set_message_fields)

lemma forest_empty: "forest empty_heap"
  by (simp add: forest_def child_rel_def empty_heap_def)

lemma link_inv_add_child:
  assumes inv: "link_inv h ids R" and p: "p \<in> snd ` set ids" and c: "c \<in> snd ` set ids"
    and nd: "(p, c) \<notin> (child_rel h)\<^sup>*"
  shows "link_inv (add_child h p c) ids R"
proof -
  from inv have f: "forest h" and b: "\<And>v. v \<in> snd ` set ids \<Longrightarrow> v < top h"
    and r: "\<And>r. r \<in> R \<Longrightarrow> r < top h \<and> r \<notin> snd ` set ids
                  \<and> c_parent (cell h r) = None \<and> c_children (cell h r) = []"
    by (auto simp: link_inv_def)
  have "forest (add_child h p c)"
    using f nd b [OF c] by (rule forest_add_child)
  moreover have "\<forall>v \<in> snd ` set ids. v < top (add_child h p c)"
    using b by (simp add: add_child_top)
  moreover have "r' < top (add_child h p c) \<and> r' \<notin> snd ` set ids
        \<and> c_parent (cell (add_child h p c) r') = None \<and> c_children (cell (add_child h p c) r') = []"
    if "r' \<in> R" for r'
  proof -
    from r [OF that] p c have "r' \<noteq> p" "r' \<noteq> c" by auto
    with r [OF that] show ?thesis
      by (simp add: add_child_top add_child_parent add_child_children)
  qed
  ultimately show ?thesis
    unfolding link_inv_def by blast
qed

lemma Container_new_fields:
  "snd (Container_new h msg) = top h"
  "top (fst (Container_new h msg)) = Suc (top h)"
  "cell (fst (Container_new h msg)) x =
     (if x = top h then \<lparr>c_parent = None, c_message = msg, c_children = [], c_subject = None\<rparr>
      else cell h x)"
  by (simp_all add: Container_new_def)

lemma link_inv_new_id:
  assumes "link_inv h ids R"
  shows "link_inv (fst (Container_new h msg)) (ids @ [(k, top h)]) R"
proof -
  from assms have f: "forest h" and b: "\<And>v. v \<in> snd ` set ids \<Longrightarrow> v < top h"
    and r: "\<And>r. r \<in> R \<Longrightarrow> r < top h \<and> r \<notin> snd ` set ids
                  \<and> c_parent (cell h r) = None \<and> c_children (cell h r) = []"
    by (auto simp: link_inv_def)
  have "forest (fst (Container_new h msg))"
    using f by (rule forest_Container_new)
  moreover have "\<forall>v \<in> snd ` set (ids @ [(k, top h)]). v < top (fst (Container_new h msg))"
    using b by (auto simp: Container_new_fields less_Suc_eq)
  moreover have "\<forall>r' \<in> R. r' < top (fst (Container_new h msg))
        \<and> r' \<notin> snd ` set (ids @ [(k, top h)])
        \<and> c_parent (cell (fst (Container_new h msg)) r') = None
        \<and> c_children (cell (fst (Container_new h msg)) r') = []"
    using r by (fastforce simp: Container_new_fields)
  ultimately show ?thesis
    unfolding link_inv_def by blast
qed

lemma link_inv_new_root:
  assumes "link_inv h ids R"
  shows "link_inv (fst (Container_new h msg)) ids (insert (top h) R)"
proof -
  from assms have f: "forest h" and b: "\<And>v. v \<in> snd ` set ids \<Longrightarrow> v < top h"
    and r: "\<And>r. r \<in> R \<Longrightarrow> r < top h \<and> r \<notin> snd ` set ids
                  \<and> c_parent (cell h r) = None \<and> c_children (cell h r) = []"
    by (auto simp: link_inv_def)
  have "forest (fst (Container_new h msg))"
    using f by (rule forest_Container_new)
  moreover have "\<forall>v \<in> snd ` set ids. v < top (fst (Container_new h msg))"
    using b by (auto simp: Container_new_fields less_Suc_eq)
  moreover have "\<forall>r' \<in> insert (top h) R. r' < top (fst (Container_new h msg))
        \<and> r' \<notin> snd ` set ids
        \<and> c_parent (cell (fst (Container_new h msg)) r') = None
        \<and> c_children (cell (fst (Container_new h msg)) r') = []"
    using r b by (fastforce simp: Container_new_fields)
  ultimately show ?thesis
    unfolding link_inv_def by blast
qed

lemma link_inv_set_message:
  assumes "link_inv h ids R"
  shows "link_inv (set_message h a m) ids R"
  using assms by (simp add: link_inv_def forest_set_message set_message_fields)

lemma link_refs_inv:
  assumes "link_inv h ids R" and "\<forall>p. prev = Some p \<longrightarrow> p \<in> snd ` set ids"
  shows "\<exists>h' ids' prev'. link_refs h ids prev refs = Some (h', ids', prev')
           \<and> link_inv h' ids' R
           \<and> (\<forall>p. prev' = Some p \<longrightarrow> p \<in> snd ` set ids')
           \<and> snd ` set ids \<subseteq> snd ` set ids'
           \<and> (\<forall>x < top h. c_message (cell h' x) = c_message (cell h x))
           \<and> top h \<le> top h'"
  using assms
proof (induction refs arbitrary: h ids prev)
  case Nil
  then show ?case by simp
next
  case (Cons ref refs)
  define st where "st = (case map_of ids ref of
               Some cur \<Rightarrow> (h, ids, cur)
             | None \<Rightarrow> (let (h0, cur) = Container_new h None in (h0, ids @ [(ref, cur)], cur)))"
  obtain h1 ids1 cur where st: "st = (h1, ids1, cur)" by (cases st)
  have all1: "link_inv h1 ids1 R \<and> cur \<in> snd ` set ids1 \<and> snd ` set ids \<subseteq> snd ` set ids1
      \<and> (\<forall>x < top h. c_message (cell h1 x) = c_message (cell h x)) \<and> top h \<le> top h1"
  proof (cases "map_of ids ref")
    case None
    with st have "h1 = fst (Container_new h None)" "ids1 = ids @ [(ref, top h)]" "cur = top h"
      by (auto simp: st_def Container_new_def)
    with link_inv_new_id [OF Cons.prems(1), of None ref] show ?thesis
      by (auto simp: Container_new_fields)
  next
    case (Some a)
    with st have e: "h1 = h" "ids1 = ids" "cur = a" by (simp_all add: st_def)
    from Some have "(ref, a) \<in> set ids" by (rule map_of_SomeD)
    then have "a \<in> snd ` set ids" by force
    with e Cons.prems(1) show ?thesis by simp
  qed
  then have inv1: "link_inv h1 ids1 R" and cur: "cur \<in> snd ` set ids1"
    and sub1: "snd ` set ids \<subseteq> snd ` set ids1"
    and msg1: "\<forall>x < top h. c_message (cell h1 x) = c_message (cell h x)"
    and top1: "top h \<le> top h1"
    by blast+
  have pc: "\<forall>p. Some cur = Some p \<longrightarrow> p \<in> snd ` set ids1"
    using cur by simp
  have next_step: "\<exists>h' ids' prev'. link_refs h2 ids1 (Some cur) refs = Some (h', ids', prev')
           \<and> link_inv h' ids' R
           \<and> (\<forall>p. prev' = Some p \<longrightarrow> p \<in> snd ` set ids')
           \<and> snd ` set ids \<subseteq> snd ` set ids'
           \<and> (\<forall>x < top h. c_message (cell h' x) = c_message (cell h x))
           \<and> top h \<le> top h'"
    if inv2: "link_inv h2 ids1 R" and msg2: "\<forall>x. c_message (cell h2 x) = c_message (cell h1 x)"
      and top2: "top h2 = top h1" for h2
  proof -
    from Cons.IH [OF inv2 pc] obtain h' ids' prev'
      where r: "link_refs h2 ids1 (Some cur) refs = Some (h', ids', prev')"
        "link_inv h' ids' R" "\<forall>p. prev' = Some p \<longrightarrow> p \<in> snd ` set ids'"
        "snd ` set ids1 \<subseteq> snd ` set ids'"
        "\<forall>x < top h2. c_message (cell h' x) = c_message (cell h2 x)" "top h2 \<le> top h'"
      by blast
    from r(4) sub1 have "snd ` set ids \<subseteq> snd ` set ids'" by blast
    moreover from r(5) msg2 msg1 top1 top2
    have "\<forall>x < top h. c_message (cell h' x) = c_message (cell h x)" by simp
    moreover from r(6) top1 top2 have "top h \<le> top h'" by simp
    ultimately show ?thesis using r(1,2,3) by blast
  qed
  have unfold: "link_refs h ids prev (ref # refs) =
     (case prev of
           None \<Rightarrow> link_refs h1 ids1 (Some cur) refs
         | Some p \<Rightarrow>
             if c_parent (cell h1 cur) = None then
               Option.bind (has_descandent h1 cur p)
                 (\<lambda>d. if \<not> d then link_refs (add_child h1 p cur) ids1 (Some cur) refs
                      else link_refs h1 ids1 (Some cur) refs)
             else link_refs h1 ids1 (Some cur) refs)"
    using st by (simp add: st_def)
  show ?case
  proof (cases prev)
    case None
    with unfold next_step [OF inv1] show ?thesis by simp
  next
    case (Some p)
    with Cons.prems(2) sub1 have p: "p \<in> snd ` set ids1" by blast
    from inv1 have w: "wf (child_rel h1)" by (simp add: link_inv_def forest_def)
    have hd: "has_descandent h1 cur p = Some ((p, cur) \<in> (child_rel h1)\<^sup>*)"
      using w by (rule has_descandent_total)
    show ?thesis
    proof (cases "c_parent (cell h1 cur) = None \<and> (p, cur) \<notin> (child_rel h1)\<^sup>*")
      case True
      then have "link_inv (add_child h1 p cur) ids1 R"
        using link_inv_add_child [OF inv1 p cur] by simp
      from next_step [OF this] have "\<exists>h' ids' prev'.
           link_refs (add_child h1 p cur) ids1 (Some cur) refs = Some (h', ids', prev')
           \<and> link_inv h' ids' R
           \<and> (\<forall>p. prev' = Some p \<longrightarrow> p \<in> snd ` set ids')
           \<and> snd ` set ids \<subseteq> snd ` set ids'
           \<and> (\<forall>x < top h. c_message (cell h' x) = c_message (cell h x))
           \<and> top h \<le> top h'"
        by (simp add: add_child_message add_child_top)
      with True Some unfold hd show ?thesis by simp
    next
      case False
      with Some unfold hd next_step [OF inv1] show ?thesis by auto
    qed
  qed
qed

lemma thread_message_inv:
  assumes inv: "link_inv (st_heap s) (st_ids s) (set (st_roots s))"
  shows "\<exists>s'. thread_message s msg = Some s'
           \<and> link_inv (st_heap s') (st_ids s') (set (st_roots s'))
           \<and> set (st_roots s) \<subseteq> set (st_roots s')
           \<and> (\<forall>r \<in> set (st_roots s). c_message (cell (st_heap s') r) = c_message (cell (st_heap s) r))
           \<and> (match_id (header msg ''Message-ID'') = None \<longrightarrow>
                (\<exists>r \<in> set (st_roots s'). c_message (cell (st_heap s') r) = Some msg))"
proof (cases "match_id (header msg ''Message-ID'')")
  case None
  let ?h1 = "fst (Container_new (st_heap s) (Some msg))"
  let ?s' = "s\<lparr>st_heap := ?h1, st_roots := st_roots s @ [top (st_heap s)]\<rparr>"
  have t: "thread_message s msg = Some ?s'"
    using None by (simp add: thread_message_def Container_new_def)
  have "link_inv ?h1 (st_ids s) (insert (top (st_heap s)) (set (st_roots s)))"
    using inv by (rule link_inv_new_root)
  then have 1: "link_inv (st_heap ?s') (st_ids ?s') (set (st_roots ?s'))"
    by simp
  have lt: "r < top (st_heap s)" if "r \<in> set (st_roots s)" for r
    using inv that by (simp add: link_inv_def)
  have 2: "\<forall>r \<in> set (st_roots s). c_message (cell (st_heap ?s') r) = c_message (cell (st_heap s) r)"
    using lt by (fastforce simp: Container_new_fields)
  have 3: "\<exists>r \<in> set (st_roots ?s'). c_message (cell (st_heap ?s') r) = Some msg"
    by (simp add: Container_new_fields)
  from t 1 2 3 show ?thesis
    by (intro exI [of _ ?s']) auto
next
  case (Some msgid)
  define st where "st = (case map_of (st_ids s) msgid of
                    None \<Rightarrow>
                      (let (h0, par) = Container_new (st_heap s) (Some msg)
                       in (h0, st_ids s @ [(msgid, par)], st_overridden s, par))
                  | Some par \<Rightarrow>
                      (set_message (st_heap s) par (Some msg), st_ids s,
                       (case c_message (cell (st_heap s) par) of
                          Some old \<Rightarrow> st_overridden s @ [old]
                        | None \<Rightarrow> st_overridden s),
                       par))"
  obtain h1 ids1 ov1 par where st: "st = (h1, ids1, ov1, par)" by (cases st)
  have lt: "r < top (st_heap s) \<and> r \<notin> snd ` set (st_ids s)" if "r \<in> set (st_roots s)" for r
    using inv that by (simp add: link_inv_def)
  have all1: "link_inv h1 ids1 (set (st_roots s)) \<and> par \<in> snd ` set ids1
      \<and> (\<forall>r \<in> set (st_roots s). c_message (cell h1 r) = c_message (cell (st_heap s) r))
      \<and> top (st_heap s) \<le> top h1"
  proof (cases "map_of (st_ids s) msgid")
    case None
    with st have e: "h1 = fst (Container_new (st_heap s) (Some msg))"
      "ids1 = st_ids s @ [(msgid, top (st_heap s))]" "par = top (st_heap s)"
      by (auto simp: st_def Container_new_def)
    have "\<forall>r \<in> set (st_roots s). c_message (cell h1 r) = c_message (cell (st_heap s) r)"
      using lt e by (fastforce simp: Container_new_fields)
    with e link_inv_new_id [OF inv, of "Some msg" msgid] show ?thesis
      by (auto simp: Container_new_fields)
  next
    case (Some a)
    with st have e: "h1 = set_message (st_heap s) a (Some msg)" "ids1 = st_ids s" "par = a"
      by (auto simp: st_def)
    from Some have "(msgid, a) \<in> set (st_ids s)" by (rule map_of_SomeD)
    then have a: "a \<in> snd ` set (st_ids s)" by force
    have "\<forall>r \<in> set (st_roots s). c_message (cell h1 r) = c_message (cell (st_heap s) r)"
      using lt a e by (auto simp: set_message_fields)
    with e a link_inv_set_message [OF inv, of a "Some msg"] show ?thesis
      by (simp add: set_message_fields)
  qed
  then have inv1: "link_inv h1 ids1 (set (st_roots s))" and par: "par \<in> snd ` set ids1"
    and msg1: "\<forall>r \<in> set (st_roots s). c_message (cell h1 r) = c_message (cell (st_heap s) r)"
    and top1: "top (st_heap s) \<le> top h1"
    by blast+
  from link_refs_inv [OF inv1, of None "get_references msg"] obtain h2 ids2 prev
    where lr: "link_refs h1 ids1 None (get_references msg) = Some (h2, ids2, prev)"
      and inv2: "link_inv h2 ids2 (set (st_roots s))"
      and prev: "\<forall>p. prev = Some p \<longrightarrow> p \<in> snd ` set ids2"
      and sub2: "snd ` set ids1 \<subseteq> snd ` set ids2"
      and msg2: "\<forall>x < top h1. c_message (cell h2 x) = c_message (cell h1 x)"
    by auto
  have rm2: "\<forall>r \<in> set (st_roots s). c_message (cell h2 r) = c_message (cell (st_heap s) r)"
    using msg1 msg2 lt top1 by fastforce
  have unfold: "thread_message s msg =
      (case prev of
         None \<Rightarrow> Some (s\<lparr>st_heap := h2, st_ids := ids2, st_overridden := ov1\<rparr>)
       | Some p \<Rightarrow>
           Option.bind (has_descandent h2 par p)
             (\<lambda>d. Some (s\<lparr>st_heap := (if \<not> d then add_child h2 p par else h2),
                            st_ids := ids2, st_overridden := ov1\<rparr>)))"
    using Some st lr by (simp add: thread_message_def st_def)
  show ?thesis
  proof (cases prev)
    case None
    with unfold inv2 rm2 Some show ?thesis by simp
  next
    case p: (Some p)
    with prev have pin: "p \<in> snd ` set ids2" by simp
    from par sub2 have parin: "par \<in> snd ` set ids2" by blast
    from inv2 have w: "wf (child_rel h2)" by (simp add: link_inv_def forest_def)
    have hd: "has_descandent h2 par p = Some ((p, par) \<in> (child_rel h2)\<^sup>*)"
      using w by (rule has_descandent_total)
    show ?thesis
    proof (cases "(p, par) \<in> (child_rel h2)\<^sup>*")
      case True
      with unfold p hd inv2 rm2 Some show ?thesis by simp
    next
      case False
      then have "link_inv (add_child h2 p par) ids2 (set (st_roots s))"
        using link_inv_add_child [OF inv2 pin parin] by simp
      with False unfold p hd rm2 Some show ?thesis
        by (simp add: add_child_message)
    qed
  qed
qed

lemma link_all_inv:
  assumes "link_inv (st_heap s) (st_ids s) (set (st_roots s))"
  shows "\<exists>s'. link_all s msgs = Some s'
           \<and> link_inv (st_heap s') (st_ids s') (set (st_roots s'))
           \<and> set (st_roots s) \<subseteq> set (st_roots s')
           \<and> (\<forall>r \<in> set (st_roots s). c_message (cell (st_heap s') r) = c_message (cell (st_heap s) r))
           \<and> (\<forall>m \<in> set msgs. match_id (header m ''Message-ID'') = None \<longrightarrow>
                (\<exists>r \<in> set (st_roots s'). c_message (cell (st_heap s') r) = Some m))"
  using assms
proof (induction msgs arbitrary: s)
  case Nil
  then show ?case by simp
next
  case (Cons msg msgs)
  from thread_message_inv [OF Cons.prems, of msg] obtain s1
    where s1: "thread_message s msg = Some s1"
      and inv1: "link_inv (st_heap s1) (st_ids s1) (set (st_roots s1))"
      and sub1: "set (st_roots s) \<subseteq> set (st_roots s1)"
      and msg1: "\<forall>r \<in> set (st_roots s). c_message (cell (st_heap s1) r) = c_message (cell (st_heap s) r)"
      and new1: "match_id (header msg ''Message-ID'') = None \<longrightarrow>
                (\<exists>r \<in> set (st_roots s1). c_message (cell (st_heap s1) r) = Some msg)"
    by (elim exE conjE) (rule that)
  from Cons.IH [OF inv1] obtain s'
    where s': "link_all s1 msgs = Some s'"
      and inv': "link_inv (st_heap s') (st_ids s') (set (st_roots s'))"
      and sub': "set (st_roots s1) \<subseteq> set (st_roots s')"
      and msg': "\<forall>r \<in> set (st_roots s1). c_message (cell (st_heap s') r) = c_message (cell (st_heap s1) r)"
      and new': "\<forall>m \<in> set msgs. match_id (header m ''Message-ID'') = None \<longrightarrow>
                (\<exists>r \<in> set (st_roots s'). c_message (cell (st_heap s') r) = Some m)"
    by (elim exE conjE) (rule that)
  have 1: "link_all s (msg # msgs) = Some s'"
    using s1 s' by simp
  have 2: "set (st_roots s) \<subseteq> set (st_roots s')"
    using sub1 sub' by blast
  have 3: "\<forall>r \<in> set (st_roots s). c_message (cell (st_heap s') r) = c_message (cell (st_heap s) r)"
    using msg1 msg' sub1 by fastforce
  have 4: "\<exists>r \<in> set (st_roots s'). c_message (cell (st_heap s') r) = Some msg"
    if "match_id (header msg ''Message-ID'') = None"
  proof -
    from new1 that obtain r where "r \<in> set (st_roots s1)" "c_message (cell (st_heap s1) r) = Some msg"
      by blast
    with msg' sub' show ?thesis by fastforce
  qed
  from 1 inv' 2 3 4 new' show ?case
    by (intro exI [of _ s']) auto
qed

lemma link_inv_initial:
  "link_inv (st_heap initial_state) (st_ids initial_state) (set (st_roots initial_state))"
  by (simp add: link_inv_def initial_state_def forest_empty)





subsection \<open>Reference linking\<close>

text \<open>
  The first loop returns for every sequence of messages and leaves a forest, and step
  1.B links the container of a known reference under the previous one exactly when it
  has no parent and the previous one is not among its descendants.  Two messages that
  reference each other end as one root, the second message, with the first as its only
  child.
\<close>

lemma link_all_forest:
  "\<exists>s. link_all initial_state msgs = Some s \<and> forest (st_heap s)"
  using link_all_inv [OF link_inv_initial, of msgs] by (auto simp: link_inv_def)

lemma link_ref_step:
  assumes "forest h" and "map_of ids ref = Some cur"
  shows "link_refs h ids (Some p) [ref] =
           Some ((if c_parent (cell h cur) = None \<and> (p, cur) \<notin> (child_rel h)\<^sup>* 
                  then add_child h p cur else h), ids, Some cur)"
proof -
  from assms(1) have "wf (child_rel h)" by (simp add: forest_def)
  then have "has_descandent h cur p = Some ((p, cur) \<in> (child_rel h)\<^sup>*)"
    by (rule has_descandent_total)
  with assms(2) show ?thesis by simp
qed

lemma mutual_reference:
  assumes "match_id (header A ''Message-ID'') = Some a" and "get_references A = [b]"
    and "match_id (header B ''Message-ID'') = Some b" and "get_references B = [a]"
    and "a \<noteq> b"
  shows "forest_view (thread [A, B]) =
           Some (Inr ([1], [(Some 1, Some A, []), (None, Some B, [0])]))"
proof -
  from assms(5) have ne: "b \<noteq> a" by simp
  show ?thesis
    by (simp add: thread_steps assms ne upt_conv_Cons)
qed



end
